theory Spec2Isabelle
  imports Main "HOL-Library.Word"
begin

unbundle bit_operations_syntax

section \<open>Memory\<close>

text \<open>
  The allocator of \<^verbatim>\<open>src/main.c\<close> keeps its block headers inside the memory it hands
  out, so headers and payloads are modelled in one byte-addressed memory. The data
  model is LP64 (the source's comment: "8 bytes for 64-bit systems"): \<^verbatim>\<open>size_t\<close> and
  pointers are 64-bit words, \<^verbatim>\<open>int\<close> is a 32-bit word, multi-byte values are stored
  little-endian. \<^verbatim>\<open>NULL\<close> is the address 0. The functions are those of the complete
  program at the head of \<^verbatim>\<open>src/main.c\<close> (lines 1 to 203); the partial earlier draft that
  follows it in the same file is not modelled.
\<close>

type_synonym addr = "64 word"
type_synonym byte = "8 word"
type_synonym memory = "nat \<Rightarrow> byte"

fun load_le :: "memory \<Rightarrow> nat \<Rightarrow> nat \<Rightarrow> nat" where
  "load_le m a 0 = 0"
| "load_le m a (Suc n) = unat (m a) + 256 * load_le m (Suc a) n"

fun store_le :: "memory \<Rightarrow> nat \<Rightarrow> nat \<Rightarrow> nat \<Rightarrow> memory" where
  "store_le m a 0 v = m"
| "store_le m a (Suc n) v = store_le (m(a := of_nat v)) (Suc a) n (v div 256)"

definition rd64 :: "memory \<Rightarrow> nat \<Rightarrow> 64 word" where
  "rd64 m a = of_nat (load_le m a 8)"

definition wr64 :: "memory \<Rightarrow> nat \<Rightarrow> 64 word \<Rightarrow> memory" where
  "wr64 m a v = store_le m a 8 (unat v)"

definition rd32 :: "memory \<Rightarrow> nat \<Rightarrow> 32 word" where
  "rd32 m a = of_nat (load_le m a 4)"

definition wr32 :: "memory \<Rightarrow> nat \<Rightarrow> 32 word \<Rightarrow> memory" where
  "wr32 m a v = store_le m a 4 (unat v)"

text \<open>\<^verbatim>\<open>memcpy(dst, src, n)\<close>: the \<open>n\<close> bytes at \<open>src\<close>, as they are before the call, land at \<open>dst\<close>.\<close>

definition memcpy :: "memory \<Rightarrow> addr \<Rightarrow> addr \<Rightarrow> addr \<Rightarrow> memory" where
  "memcpy m dst src n =
     (\<lambda>x. if unat dst \<le> x \<and> x < unat dst + unat n then m (unat src + (x - unat dst)) else m x)"

section \<open>Block headers\<close>

text \<open>
  \<^verbatim>\<open>typedef struct block { size_t size; int free; struct block *next; } block_t;\<close>
  On LP64 the fields sit at offsets 0, 8 and 16 and \<^verbatim>\<open>sizeof(block_t)\<close> is 24.
\<close>

definition ALIGNMENT :: addr where
  "ALIGNMENT = 8"

definition ALIGN :: "addr \<Rightarrow> addr" where
  "ALIGN sz = (sz + (ALIGNMENT - 1)) AND NOT (ALIGNMENT - 1)"

definition BLOCK_SIZE :: addr where
  "BLOCK_SIZE = 24"

definition blk_size :: "memory \<Rightarrow> addr \<Rightarrow> addr" where
  "blk_size m b = rd64 m (unat b)"

definition blk_free :: "memory \<Rightarrow> addr \<Rightarrow> 32 word" where
  "blk_free m b = rd32 m (unat b + 8)"

definition blk_next :: "memory \<Rightarrow> addr \<Rightarrow> addr" where
  "blk_next m b = rd64 m (unat b + 16)"

definition set_size :: "memory \<Rightarrow> addr \<Rightarrow> addr \<Rightarrow> memory" where
  "set_size m b v = wr64 m (unat b) v"

definition set_free :: "memory \<Rightarrow> addr \<Rightarrow> 32 word \<Rightarrow> memory" where
  "set_free m b v = wr32 m (unat b + 8) v"

definition set_next :: "memory \<Rightarrow> addr \<Rightarrow> addr \<Rightarrow> memory" where
  "set_next m b v = wr64 m (unat b + 16) v"

definition get_block_ptr :: "addr \<Rightarrow> addr" where
  "get_block_ptr ptr = ptr - BLOCK_SIZE"

section \<open>The heap and the arena provider\<close>

text \<open>
  The state of the program: the memory, the global \<^verbatim>\<open>head\<close>, and the program break.
  \<open>brk_max\<close> and \<open>brk_min\<close> are the environment's limits on the break (the most the
  system will map, and the start of the data segment); they never change.
\<close>

record heap_state =
  mem :: memory
  head :: addr
  brk :: addr
  brk_max :: addr
  brk_min :: addr

text \<open>
  Modelled from the C library's documentation: \<^verbatim>\<open>void *sbrk(intptr_t increment)\<close> is not
  part of the program. It moves the program break by \<open>increment\<close> bytes and returns the
  previous break, or \<^verbatim>\<open>(void* )-1\<close> (here \<open>None\<close>) when the system refuses.
  \<^verbatim>\<open>request_space\<close> passes it the \<^verbatim>\<open>size_t\<close> sum \<^verbatim>\<open>BLOCK_SIZE + size\<close>, which the call
  converts to \<^verbatim>\<open>intptr_t\<close>: \<open>n\<close> is that sum and \<open>sint n\<close> the increment \<^verbatim>\<open>sbrk\<close> sees. A
  non-negative increment is granted when the new break stays within \<open>brk_max\<close> (the
  granted region is then the \<open>n\<close> bytes that follow the previous break, as the spec's
  Memory Arena Provider contract has it); a negative one lowers the break, and is
  granted when the new break does not fall below \<open>brk_min\<close>.
\<close>

definition sbrk :: "heap_state \<Rightarrow> addr \<Rightarrow> (addr \<times> heap_state) option" where
  "sbrk s n =
     (if 0 \<le> sint n
      then
        (if uint (brk s) + sint n \<le> uint (brk_max s)
         then Some (brk s, s\<lparr>brk := brk s + n\<rparr>)
         else None)
      else
        (if uint (brk_min s) \<le> uint (brk s) + sint n
         then Some (brk s, s\<lparr>brk := brk s + n\<rparr>)
         else None))"

section \<open>The allocator\<close>

text \<open>\<^verbatim>\<open>request_space\<close>: the block it returns is \<^verbatim>\<open>NULL\<close> (0) when \<^verbatim>\<open>sbrk\<close> fails.\<close>

definition request_space :: "heap_state \<Rightarrow> addr \<Rightarrow> addr \<Rightarrow> addr \<times> heap_state" where
  "request_space s lastb sz =
     (let block = brk s in
      case sbrk s (BLOCK_SIZE + sz) of
        None \<Rightarrow> (0, s)
      | Some (request, s1) \<Rightarrow>
          (let m1 = (if lastb \<noteq> 0 then set_next (mem s1) lastb block else mem s1);
               m2 = set_size m1 block sz;
               m3 = set_free m2 block 0;
               m4 = set_next m3 block 0
           in (block, s1\<lparr>mem := m4\<rparr>)))"

text \<open>
  \<^verbatim>\<open>find_free_block_first_fit\<close>: the loop, on the memory, the requested size, the caller's
  \<^verbatim>\<open>last\<close> and \<^verbatim>\<open>current\<close>. It returns the final \<^verbatim>\<open>*last\<close> and the block found
  (\<^verbatim>\<open>NULL\<close> when none); on a cyclic chain it does not return (\<open>None\<close>).
\<close>

partial_function (option) first_fit_loop ::
  "memory \<Rightarrow> addr \<Rightarrow> addr \<Rightarrow> addr \<Rightarrow> (addr \<times> addr) option" where
  "first_fit_loop m sz lastb current =
     (if current \<noteq> 0 \<and> \<not> (blk_free m current \<noteq> 0 \<and> sz \<le> blk_size m current)
      then first_fit_loop m sz current (blk_next m current)
      else Some (lastb, current))"

definition find_free_block_first_fit ::
  "heap_state \<Rightarrow> addr \<Rightarrow> addr \<Rightarrow> (addr \<times> addr) option" where
  "find_free_block_first_fit s lastb sz = first_fit_loop (mem s) sz lastb (head s)"

text \<open>\<^verbatim>\<open>find_free_block_best_fit\<close>: it returns the final \<^verbatim>\<open>*last\<close> and \<^verbatim>\<open>best\<close>.\<close>

partial_function (option) best_fit_loop ::
  "memory \<Rightarrow> addr \<Rightarrow> addr \<Rightarrow> addr \<Rightarrow> addr \<Rightarrow> addr \<Rightarrow> (addr \<times> addr) option" where
  "best_fit_loop m sz lastb best best_size current =
     (if current \<noteq> 0
      then
        (if blk_free m current \<noteq> 0 \<and> sz \<le> blk_size m current \<and> blk_size m current < best_size
         then best_fit_loop m sz current current (blk_size m current) (blk_next m current)
         else best_fit_loop m sz (if best = 0 \<or> current = best then current else lastb)
                best best_size (blk_next m current))
      else Some (lastb, best))"

definition SIZE_MAX :: addr where
  "SIZE_MAX = - 1"

definition find_free_block_best_fit :: "heap_state \<Rightarrow> addr \<Rightarrow> (addr \<times> addr) option" where
  "find_free_block_best_fit s sz = best_fit_loop (mem s) sz 0 0 SIZE_MAX (head s)"

text \<open>\<^verbatim>\<open>split_block\<close>: each statement reads the memory its predecessors left.\<close>

definition split_block :: "memory \<Rightarrow> addr \<Rightarrow> addr \<Rightarrow> memory" where
  "split_block m block sz =
     (if sz + BLOCK_SIZE + ALIGNMENT \<le> blk_size m block
      then
        (let new_block = block + BLOCK_SIZE + sz;
             m1 = set_size m new_block (blk_size m block - sz - BLOCK_SIZE);
             m2 = set_free m1 new_block 1;
             m3 = set_next m2 new_block (blk_next m2 block);
             m4 = set_size m3 block sz
         in set_next m4 block new_block)
      else m)"

partial_function (option) coalesce_loop :: "memory \<Rightarrow> addr \<Rightarrow> memory option" where
  "coalesce_loop m current =
     (if current \<noteq> 0 \<and> blk_next m current \<noteq> 0
      then
        (if blk_free m current \<noteq> 0 \<and> blk_free m (blk_next m current) \<noteq> 0
         then
           (let m1 = set_size m current
                       (blk_size m current + (BLOCK_SIZE + blk_size m (blk_next m current)));
                m2 = set_next m1 current (blk_next m1 (blk_next m1 current))
            in coalesce_loop m2 current)
         else coalesce_loop m (blk_next m current))
      else Some m)"

definition coalesce :: "heap_state \<Rightarrow> heap_state option" where
  "coalesce s =
     (case coalesce_loop (mem s) (head s) of
        None \<Rightarrow> None
      | Some m \<Rightarrow> Some (s\<lparr>mem := m\<rparr>))"

text \<open>
  The public API. A call returns \<open>None\<close> when one of its loops does not return, and
  otherwise the pointer it returns (0 for \<^verbatim>\<open>NULL\<close>) with the state it leaves.
\<close>

definition my_malloc :: "heap_state \<Rightarrow> addr \<Rightarrow> (addr \<times> heap_state) option" where
  "my_malloc s size0 =
     (if size0 = 0 then Some (0, s)
      else
        (let sz = ALIGN size0 in
         if head s = 0
         then
           (case request_space s 0 sz of
              (block, s1) \<Rightarrow>
                if block = 0 then Some (0, s1)
                else Some (block + BLOCK_SIZE, s1\<lparr>head := block\<rparr>))
         else
           (case find_free_block_first_fit s (head s) sz of
              None \<Rightarrow> None
            | Some (lastb, block) \<Rightarrow>
                if block = 0
                then
                  (case request_space s lastb sz of
                     (block, s1) \<Rightarrow>
                       if block = 0 then Some (0, s1) else Some (block + BLOCK_SIZE, s1))
                else
                  (let m1 = split_block (mem s) block sz;
                       m2 = set_free m1 block 0
                   in Some (block + BLOCK_SIZE, s\<lparr>mem := m2\<rparr>)))))"

definition my_free :: "heap_state \<Rightarrow> addr \<Rightarrow> heap_state option" where
  "my_free s ptr =
     (if ptr = 0 then Some s
      else
        (let block = get_block_ptr ptr
         in coalesce (s\<lparr>mem := set_free (mem s) block 1\<rparr>)))"

definition my_realloc :: "heap_state \<Rightarrow> addr \<Rightarrow> addr \<Rightarrow> (addr \<times> heap_state) option" where
  "my_realloc s ptr sz =
     (if ptr = 0 then my_malloc s sz
      else if sz = 0 then
        (case my_free s ptr of None \<Rightarrow> None | Some s1 \<Rightarrow> Some (0, s1))
      else
        (let block = get_block_ptr ptr in
         if sz \<le> blk_size (mem s) block
         then Some (ptr, s\<lparr>mem := split_block (mem s) block sz\<rparr>)
         else
           (case my_malloc s sz of
              None \<Rightarrow> None
            | Some (new_ptr, s1) \<Rightarrow>
                if new_ptr = 0 then Some (0, s1)
                else
                  (case my_free (s1\<lparr>mem := memcpy (mem s1) new_ptr ptr (blk_size (mem s1) block)\<rparr>) ptr of
                     None \<Rightarrow> None
                   | Some s2 \<Rightarrow> Some (new_ptr, s2)))))"

section \<open>Loads and stores\<close>

lemma store_le_outside: "x < a \<or> a + n \<le> x \<Longrightarrow> store_le m a n v x = m x"
  by (induction n arbitrary: m a v) auto

lemma load_le_cong:
  "(\<And>x. a \<le> x \<Longrightarrow> x < a + n \<Longrightarrow> m x = m' x) \<Longrightarrow> load_le m a n = load_le m' a n"
  by (induction n arbitrary: a) auto

lemma load_store_le: "load_le (store_le m a n v) a n = v mod 256 ^ n"
proof (induction n arbitrary: m a v)
  case 0 show ?case by simp
next
  case (Suc n)
  let ?m = "fun_upd m a (of_nat v)"
  have "store_le ?m (Suc a) n (v div 256) a = (of_nat v :: byte)"
    by (simp add: store_le_outside)
  moreover have "unat (of_nat v :: byte) = v mod 256"
    by (simp add: unat_of_nat)
  moreover have "load_le (store_le ?m (Suc a) n (v div 256)) (Suc a) n = v div 256 mod 256 ^ n"
    by (rule Suc.IH)
  ultimately show ?case
    by (simp add: mod_mult2_eq)
qed

lemma load_store_le_disj:
  "a + n \<le> b \<or> b + k \<le> a \<Longrightarrow> load_le (store_le m a n v) b k = load_le m b k"
  by (rule load_le_cong) (auto simp: store_le_outside)

lemma rd64_wr64_same: "rd64 (wr64 m a v) a = v"
proof -
  have "unat v mod 256 ^ 8 = unat v"
    using unsigned_less[of v, where 'a=nat] by simp
  then show ?thesis by (simp add: rd64_def wr64_def load_store_le)
qed

lemma rd32_wr32_same: "rd32 (wr32 m a v) a = v"
proof -
  have "unat v mod 256 ^ 4 = unat v"
    using unsigned_less[of v, where 'a=nat] by simp
  then show ?thesis by (simp add: rd32_def wr32_def load_store_le)
qed

lemma rd64_wr64_other: "a + 8 \<le> b \<or> b + 8 \<le> a \<Longrightarrow> rd64 (wr64 m a v) b = rd64 m b"
  by (simp add: rd64_def wr64_def load_store_le_disj)

lemma rd64_wr32_other: "a + 4 \<le> b \<or> b + 8 \<le> a \<Longrightarrow> rd64 (wr32 m a v) b = rd64 m b"
  by (simp add: rd64_def wr32_def load_store_le_disj)

lemma rd32_wr64_other: "a + 8 \<le> b \<or> b + 4 \<le> a \<Longrightarrow> rd32 (wr64 m a v) b = rd32 m b"
  by (simp add: rd32_def wr64_def load_store_le_disj)

lemma rd32_wr32_other: "a + 4 \<le> b \<or> b + 4 \<le> a \<Longrightarrow> rd32 (wr32 m a v) b = rd32 m b"
  by (simp add: rd32_def wr32_def load_store_le_disj)

lemma wr64_outside: "x < a \<or> a + 8 \<le> x \<Longrightarrow> wr64 m a v x = m x"
  by (simp add: wr64_def store_le_outside)

lemma wr32_outside: "x < a \<or> a + 4 \<le> x \<Longrightarrow> wr32 m a v x = m x"
  by (simp add: wr32_def store_le_outside)

lemma rd64_cong: "(\<And>x. a \<le> x \<Longrightarrow> x < a + 8 \<Longrightarrow> m x = m' x) \<Longrightarrow> rd64 m a = rd64 m' a"
  unfolding rd64_def by (simp add: load_le_cong[of a 8 m m'])

lemma rd32_cong: "(\<And>x. a \<le> x \<Longrightarrow> x < a + 4 \<Longrightarrow> m x = m' x) \<Longrightarrow> rd32 m a = rd32 m' a"
  unfolding rd32_def by (simp add: load_le_cong[of a 4 m m'])

section \<open>The arena provider on growth\<close>

text \<open>For an increment below \<open>2^63\<close> the provider is the spec's: it grows the arena or refuses.\<close>

lemma sint_small:
  fixes n :: addr
  assumes "unat n < 2 ^ 63"
  shows "sint n = int (unat n)"
proof -
  have "int (unat n) < 2 ^ 63" using assms by (metis of_nat_less_iff of_nat_numeral of_nat_power)
  then have u: "uint n < 2 ^ 63" by simp
  have "sint n = signed_take_bit 63 (uint n)" by (simp add: sint_uint)
  also have "\<dots> = uint n"
  proof (rule signed_take_bit_int_eq_self)
    have "- (2 ^ 63) \<le> (0::int)" by simp
    also have "0 \<le> uint n" by simp
    finally show "- (2 ^ 63) \<le> uint n" .
    show "uint n < 2 ^ 63" by (rule u)
  qed
  finally show ?thesis by simp
qed

lemma sbrk_grow:
  assumes "unat n < 2 ^ 63"
  shows "sbrk s n =
     (if unat (brk s) + unat n \<le> unat (brk_max s)
      then Some (brk s, s\<lparr>brk := brk s + n\<rparr>)
      else None)"
proof -
  have e: "sint n = int (unat n)" using assms by (rule sint_small)
  have "(uint (brk s) + int (unat n) \<le> uint (brk_max s)) = (unat (brk s) + unat n \<le> unat (brk_max s))"
    by (simp only: uint_nat) linarith
  then show ?thesis unfolding sbrk_def e by simp
qed

section \<open>Reading and writing header fields\<close>

lemma unat_BLOCK_SIZE [simp]: "unat BLOCK_SIZE = 24"
  by (simp add: BLOCK_SIZE_def)

lemma hdr_same:
  "blk_size (set_size m b v) b = v"
  "blk_size (set_free m b f) b = blk_size m b"
  "blk_size (set_next m b n) b = blk_size m b"
  "blk_free (set_size m b v) b = blk_free m b"
  "blk_free (set_free m b f) b = f"
  "blk_free (set_next m b n) b = blk_free m b"
  "blk_next (set_size m b v) b = blk_next m b"
  "blk_next (set_free m b f) b = blk_next m b"
  "blk_next (set_next m b n) b = n"
  by (simp_all add: blk_size_def blk_free_def blk_next_def set_size_def set_free_def set_next_def
      rd64_wr64_same rd32_wr32_same rd64_wr64_other rd64_wr32_other rd32_wr64_other)

lemma hdr_other:
  assumes "unat b + 24 \<le> unat c \<or> unat c + 24 \<le> unat b"
  shows "blk_size (set_size m b v) c = blk_size m c"
    and "blk_size (set_free m b f) c = blk_size m c"
    and "blk_size (set_next m b n) c = blk_size m c"
    and "blk_free (set_size m b v) c = blk_free m c"
    and "blk_free (set_free m b f) c = blk_free m c"
    and "blk_free (set_next m b n) c = blk_free m c"
    and "blk_next (set_size m b v) c = blk_next m c"
    and "blk_next (set_free m b f) c = blk_next m c"
    and "blk_next (set_next m b n) c = blk_next m c"
  using assms
  by (auto simp: blk_size_def blk_free_def blk_next_def set_size_def set_free_def set_next_def
      rd64_wr64_other rd64_wr32_other rd32_wr64_other rd32_wr32_other)

lemma set_outside:
  assumes "x < unat b \<or> unat b + 24 \<le> x"
  shows "set_size m b v x = m x" and "set_free m b f x = m x" and "set_next m b n x = m x"
  using assms by (auto simp: set_size_def set_free_def set_next_def wr64_outside wr32_outside)

lemma set_size_outside: "x < unat b \<or> unat b + 8 \<le> x \<Longrightarrow> set_size m b v x = m x"
  by (simp add: set_size_def wr64_outside)

lemma set_free_outside: "x < unat b + 8 \<or> unat b + 12 \<le> x \<Longrightarrow> set_free m b v x = m x"
  unfolding set_free_def by (rule wr32_outside) arith

lemma set_next_outside: "x < unat b + 16 \<or> unat b + 24 \<le> x \<Longrightarrow> set_next m b v x = m x"
  unfolding set_next_def by (rule wr64_outside) arith

lemma hdr_cong:
  assumes "\<And>x. unat b \<le> x \<Longrightarrow> x < unat b + 24 \<Longrightarrow> m' x = m x"
  shows "blk_size m' b = blk_size m b" and "blk_free m' b = blk_free m b"
    and "blk_next m' b = blk_next m b"
  unfolding blk_size_def blk_free_def blk_next_def
  by (rule rd64_cong rd32_cong, simp add: assms)+

section \<open>The chain of blocks and well-formed heaps\<close>

function chain_from :: "memory \<Rightarrow> addr \<Rightarrow> addr list" where
  "chain_from m a =
     (if a = 0 then []
      else if unat a < unat (blk_next m a) then a # chain_from m (blk_next m a)
      else [a])"
  by pat_completeness auto
termination
proof (relation "measure (\<lambda>(m, a). 2 ^ 64 - unat a)")
  show "wf (measure (\<lambda>(m, a). 2 ^ 64 - unat a))" by simp
next
  fix m :: memory and a :: addr
  assume "unat a < unat (blk_next m a)"
  moreover have "unat (blk_next m a) < 2 ^ 64"
    using unsigned_less[of "blk_next m a", where 'a=nat] by simp
  ultimately show "((m, blk_next m a), (m, a)) \<in> measure (\<lambda>(m, a). 2 ^ 64 - unat a)"
    by simp
qed

declare chain_from.simps [simp del]

fun seg :: "memory \<Rightarrow> addr \<Rightarrow> addr list \<Rightarrow> nat \<Rightarrow> nat \<Rightarrow> bool" where
  "seg m t [] lo hi = (lo = hi)"
| "seg m t (b # bs) lo hi =
     (unat b = lo \<and> blk_next m b = hd (bs @ [t])
      \<and> seg m t bs (lo + 24 + unat (blk_size m b)) hi)"

definition heap_inv :: "heap_state \<Rightarrow> bool" where
  "heap_inv s =
     (unat (brk s) \<le> unat (brk_max s)
      \<and> (head s = 0 \<or> seg (mem s) 0 (chain_from (mem s) (head s)) (unat (head s)) (unat (brk s))))"

lemma seg_le: "seg m t bs lo hi \<Longrightarrow> lo \<le> hi"
proof (induction bs arbitrary: lo)
  case Nil
  then show ?case by simp
next
  case (Cons b bs)
  then have "lo + 24 + unat (blk_size m b) \<le> hi" by simp
  then show ?case by simp
qed

lemma seg_nonempty_lt: "seg m t bs lo hi \<Longrightarrow> bs \<noteq> [] \<Longrightarrow> lo + 24 \<le> hi"
  by (cases bs) (auto dest: seg_le)

lemma seg_bounds:
  "seg m t bs lo hi \<Longrightarrow> b \<in> set bs \<Longrightarrow> lo \<le> unat b \<and> unat b + 24 + unat (blk_size m b) \<le> hi"
proof (induction bs arbitrary: lo)
  case Nil
  then show ?case by simp
next
  case (Cons c bs)
  from Cons.prems(1) have c: "unat c = lo"
    and rest: "seg m t bs (lo + 24 + unat (blk_size m c)) hi" by auto
  show ?case
  proof (cases "b = c")
    case True
    then show ?thesis using c seg_le[OF rest] by simp
  next
    case False
    with Cons.prems(2) have "b \<in> set bs" by simp
    from Cons.IH[OF rest this] show ?thesis by simp
  qed
qed

lemma seg_hd: "seg m t (b # bs) lo hi \<Longrightarrow> unat b = lo"
  by simp

lemma seg_append:
  "seg m t (xs @ ys) lo hi \<longleftrightarrow>
     (\<exists>mid. seg m (hd (ys @ [t])) xs lo mid \<and> seg m t ys mid hi)"
proof (induction xs arbitrary: lo)
  case Nil
  show ?case by simp
next
  case (Cons x xs)
  have "hd ((xs @ ys) @ [t]) = hd (xs @ [hd (ys @ [t])])"
    by (cases xs) auto
  then show ?case by (simp add: Cons.IH)
qed

lemma seg_cong:
  "seg m t bs lo hi \<Longrightarrow> (\<And>x. lo \<le> x \<Longrightarrow> x < hi \<Longrightarrow> m' x = m x) \<Longrightarrow> seg m' t bs lo hi"
proof (induction bs arbitrary: lo)
  case Nil
  then show ?case by simp
next
  case (Cons b bs)
  from Cons.prems(1) have b: "unat b = lo"
    and nx: "blk_next m b = hd (bs @ [t])"
    and rest: "seg m t bs (lo + 24 + unat (blk_size m b)) hi" by auto
  from rest have le: "lo + 24 + unat (blk_size m b) \<le> hi" by (rule seg_le)
  have same: "\<And>x. unat b \<le> x \<Longrightarrow> x < unat b + 24 \<Longrightarrow> m' x = m x"
    using b le by (intro Cons.prems(2)) auto
  have "seg m' t bs (lo + 24 + unat (blk_size m b)) hi"
    using rest by (rule Cons.IH) (auto intro: Cons.prems(2))
  then show ?case using b nx hdr_cong[of b m' m, OF same] by simp
qed

lemma seg_chain_from:
  "seg m 0 bs (unat a) hi \<Longrightarrow> bs \<noteq> [] \<Longrightarrow> a \<noteq> 0 \<Longrightarrow> chain_from m a = bs"
proof (induction bs arbitrary: a)
  case Nil
  then show ?case by simp
next
  case (Cons b bs)
  from Cons.prems have ab: "a = b" by (simp add: word_unat_eq_iff)
  show ?case
  proof (cases bs)
    case Nil
    with Cons.prems ab show ?thesis by (simp add: chain_from.simps[of m b])
  next
    case (Cons c cs)
    with Cons.prems ab have nx: "blk_next m b = c"
      and rest: "seg m 0 (c # cs) (unat b + 24 + unat (blk_size m b)) hi" by auto
    from rest have c: "unat c = unat b + 24 + unat (blk_size m b)" by simp
    then have "c \<noteq> 0" by (auto simp: unat_gt_0[symmetric])
    moreover have "seg m 0 bs (unat c) hi" using rest c Cons by simp
    ultimately have "chain_from m c = bs" using Cons.IH[of c] Cons by simp
    then show ?thesis using ab nx c Cons.prems(3) by (simp add: chain_from.simps[of m b])
  qed
qed

lemma heap_inv_iff:
  "heap_inv s \<longleftrightarrow>
     unat (brk s) \<le> unat (brk_max s)
     \<and> (head s = 0 \<or> (\<exists>bs. bs \<noteq> [] \<and> seg (mem s) 0 bs (unat (head s)) (unat (brk s))))"
proof (cases "head s = 0")
  case True
  then show ?thesis by (simp add: heap_inv_def)
next
  case False
  have ne: "chain_from (mem s) (head s) \<noteq> []"
    using False by (simp add: chain_from.simps[of "mem s" "head s"])
  show ?thesis
    using False ne seg_chain_from[of "mem s" _ "head s" "unat (brk s)"]
    by (auto simp: heap_inv_def)
qed

section \<open>The first-fit scan on a chain\<close>

lemma seg_disjoint:
  "seg m t bs lo hi \<Longrightarrow> b \<in> set bs \<Longrightarrow> c \<in> set bs \<Longrightarrow> b \<noteq> c \<Longrightarrow>
     unat b + 24 + unat (blk_size m b) \<le> unat c \<or> unat c + 24 + unat (blk_size m c) \<le> unat b"
proof (induction bs arbitrary: lo)
  case Nil
  then show ?case by simp
next
  case (Cons a bs)
  from Cons.prems(1) have a: "unat a = lo"
    and rest: "seg m t bs (lo + 24 + unat (blk_size m a)) hi" by auto
  show ?case
  proof (cases "b = a")
    case True
    with Cons.prems have "c \<in> set bs" by auto
    from seg_bounds[OF rest this] a True show ?thesis by simp
  next
    case False
    note ba = this
    show ?thesis
    proof (cases "c = a")
      case True
      with Cons.prems have "b \<in> set bs" by auto
      from seg_bounds[OF rest this] a True show ?thesis by simp
    next
      case False
      with ba Cons.prems have "b \<in> set bs" "c \<in> set bs" by auto
      from Cons.IH[OF rest this Cons.prems(4)] show ?thesis .
    qed
  qed
qed

lemma seg_nonzero: "seg m t bs lo hi \<Longrightarrow> 0 < lo \<Longrightarrow> 0 \<notin> set bs"
  using seg_bounds[of m t bs lo hi 0] by auto

lemma seg_split:
  assumes "seg m t bs lo hi" and "b \<in> set bs"
  shows "\<exists>xs ys. bs = xs @ b # ys \<and> seg m b xs lo (unat b) \<and> seg m t (b # ys) (unat b) hi"
proof -
  from assms(2) obtain xs ys where bs: "bs = xs @ b # ys" by (auto simp: in_set_conv_decomp)
  with assms(1) obtain mid where "seg m b xs lo mid" "seg m t (b # ys) mid hi"
    by (auto simp: seg_append)
  then show ?thesis using bs by auto
qed

text \<open>What the first-fit scan returns on a chain, read off the list of its blocks.\<close>

fun first_fit :: "memory \<Rightarrow> addr \<Rightarrow> addr \<Rightarrow> addr list \<Rightarrow> addr \<times> addr" where
  "first_fit m sz l [] = (l, 0)"
| "first_fit m sz l (b # bs) =
     (if blk_free m b \<noteq> 0 \<and> sz \<le> blk_size m b then (l, b) else first_fit m sz b bs)"

lemma first_fit_loop_seg:
  "seg m 0 bs lo hi \<Longrightarrow> 0 \<notin> set bs \<Longrightarrow>
     first_fit_loop m sz l (hd (bs @ [0])) = Some (first_fit m sz l bs)"
proof (induction bs arbitrary: lo l)
  case Nil
  show ?case by (subst first_fit_loop.simps) simp
next
  case (Cons b bs)
  from Cons.prems have b: "unat b = lo" and nx: "blk_next m b = hd (bs @ [0])"
    and rest: "seg m 0 bs (lo + 24 + unat (blk_size m b)) hi" by auto
  from Cons.prems(2) have b0: "b \<noteq> 0" by auto
  have IH: "first_fit_loop m sz b (hd (bs @ [0])) = Some (first_fit m sz b bs)"
    by (rule Cons.IH[OF rest]) (use Cons.prems(2) in simp)
  show ?case
    using b0 nx IH by (subst first_fit_loop.simps) simp
qed

lemma first_fit_none:
  "snd (first_fit m sz l bs) = 0 \<Longrightarrow> 0 \<notin> set bs \<Longrightarrow>
     fst (first_fit m sz l bs) = last (l # bs)
     \<and> (\<forall>b\<in>set bs. \<not> (blk_free m b \<noteq> 0 \<and> sz \<le> blk_size m b))"
  by (induction bs arbitrary: l) (auto split: if_splits)

lemma first_fit_found:
  "snd (first_fit m sz l bs) \<noteq> 0 \<Longrightarrow>
     snd (first_fit m sz l bs) \<in> set bs
     \<and> blk_free m (snd (first_fit m sz l bs)) \<noteq> 0
     \<and> sz \<le> blk_size m (snd (first_fit m sz l bs))"
  by (induction bs arbitrary: l) (auto split: if_splits)

section \<open>The coalescing pass on a chain\<close>

fun no_adjacent_free_in :: "memory \<Rightarrow> addr list \<Rightarrow> bool" where
  "no_adjacent_free_in m (b # c # bs) =
     (\<not> (blk_free m b \<noteq> 0 \<and> blk_free m c \<noteq> 0) \<and> no_adjacent_free_in m (c # bs))"
| "no_adjacent_free_in m bs = True"

text \<open>The bytes a coalescing pass may write: the size and next fields of free blocks.\<close>

definition link_bytes :: "memory \<Rightarrow> addr list \<Rightarrow> nat set" where
  "link_bytes m bs =
     {x. \<exists>b\<in>set bs. blk_free m b \<noteq> 0
           \<and> (unat b \<le> x \<and> x < unat b + 8 \<or> unat b + 16 \<le> x \<and> x < unat b + 24)}"

lemma link_bytes_Cons:
  "link_bytes m (b # bs) =
     (if blk_free m b \<noteq> 0 then {x. unat b \<le> x \<and> x < unat b + 8 \<or> unat b + 16 \<le> x \<and> x < unat b + 24}
      else {}) \<union> link_bytes m bs"
  by (auto simp: link_bytes_def)

lemma link_bytes_bounds:
  "seg m t bs lo hi \<Longrightarrow> x \<in> link_bytes m bs \<Longrightarrow> lo \<le> x \<and> x < hi"
  by (auto simp: link_bytes_def dest!: seg_bounds)

lemma unat_plus_simple:
  fixes x y :: addr
  shows "unat x + unat y < 2 ^ 64 \<Longrightarrow> unat (x + y) = unat x + unat y"
  using unat_add_lem[of x y] by simp

lemma coalesce_loop_seg:
  assumes "seg m 0 bs lo hi" and "0 \<notin> set bs" and "hi < 2 ^ 64"
  shows "\<exists>m' bs'. coalesce_loop m (hd (bs @ [0])) = Some m'
           \<and> seg m' 0 bs' lo hi
           \<and> hd (bs' @ [0]) = hd (bs @ [0])
           \<and> set bs' \<subseteq> set bs
           \<and> (\<forall>b\<in>set bs. blk_free m b = 0 \<longrightarrow> b \<in> set bs')
           \<and> (\<forall>b\<in>set bs'. blk_free m' b = blk_free m b)
           \<and> no_adjacent_free_in m' bs'
           \<and> (\<forall>x. x \<notin> link_bytes m bs \<longrightarrow> m' x = m x)"
  using assms
proof (induction "length bs" arbitrary: bs m lo rule: less_induct)
  case less
  show ?case
  proof (cases bs)
    case Nil
    have "coalesce_loop m 0 = Some m" by (subst coalesce_loop.simps) simp
    then show ?thesis using Nil less.prems by (intro exI[of _ m] exI[of _ "[]"]) simp
  next
    case (Cons b bs1)
    with less.prems have b: "unat b = lo" and nxb: "blk_next m b = hd (bs1 @ [0])"
      and rest1: "seg m 0 bs1 (lo + 24 + unat (blk_size m b)) hi" by auto
    from Cons less.prems(2) have b0: "b \<noteq> 0" by auto
    show ?thesis
    proof (cases bs1)
      case Nil
      with nxb have "blk_next m b = 0" by simp
      then have "coalesce_loop m b = Some m" by (subst coalesce_loop.simps) simp
      then show ?thesis using Nil Cons less.prems
        by (intro exI[of _ m] exI[of _ "[b]"]) simp
    next
      case (Cons c rest)
      note bs1 = this
      with nxb rest1 have nx: "blk_next m b = c"
        and c: "unat c = lo + 24 + unat (blk_size m b)"
        and nxc: "blk_next m c = hd (rest @ [0])"
        and rest: "seg m 0 rest (unat c + 24 + unat (blk_size m c)) hi" by auto
      from bs1 \<open>bs = b # bs1\<close> less.prems(2) have c0: "c \<noteq> 0" by auto
      from seg_le[OF rest] have chi: "unat c + 24 + unat (blk_size m c) \<le> hi" .
      have bc: "unat b + 24 \<le> unat c" using b c by simp
      have bs: "bs = b # c # rest" using \<open>bs = b # bs1\<close> bs1 by simp
      show ?thesis
      proof (cases "blk_free m b \<noteq> 0 \<and> blk_free m c \<noteq> 0")
        case True
        define v where "v = blk_size m b + (BLOCK_SIZE + blk_size m c)"
        define m1 where "m1 = set_size m b v"
        define m2 where "m2 = set_next m1 b (hd (rest @ [0]))"
        have uv: "unat v = unat (blk_size m b) + 24 + unat (blk_size m c)"
        proof -
          have "unat (BLOCK_SIZE + blk_size m c) = 24 + unat (blk_size m c)"
            using chi less.prems(3) by (subst unat_plus_simple) auto
          moreover have "unat (blk_size m b) + (24 + unat (blk_size m c)) < 2 ^ 64"
            using chi c less.prems(3) by simp
          ultimately show ?thesis unfolding v_def by (subst unat_plus_simple) auto
        qed
        have n1b: "blk_next m1 b = c" by (simp add: m1_def hdr_same nx)
        have n1c: "blk_next m1 c = hd (rest @ [0])"
          using bc by (simp add: m1_def hdr_other nxc)
        have step: "coalesce_loop m b = coalesce_loop m2 b"
          using b0 c0 True nx n1b n1c
          by (subst coalesce_loop.simps) (simp add: Let_def m2_def m1_def v_def)
        have out: "m2 x = m x"
          if "\<not> (unat b \<le> x \<and> x < unat b + 8)" "\<not> (unat b + 16 \<le> x \<and> x < unat b + 24)" for x
        proof -
          have "m2 x = m1 x" unfolding m2_def by (rule set_next_outside) (use that in arith)
          moreover have "m1 x = m x" unfolding m1_def by (rule set_size_outside) (use that in arith)
          ultimately show ?thesis by simp
        qed
        have seg2: "seg m2 0 (b # rest) lo hi"
        proof -
          have "seg m2 0 rest (unat c + 24 + unat (blk_size m c)) hi"
            using rest by (rule seg_cong) (use bc in \<open>auto intro!: out\<close>)
          moreover have "blk_size m2 b = v" by (simp add: m2_def m1_def hdr_same)
          moreover have "blk_next m2 b = hd (rest @ [0])" by (simp add: m2_def hdr_same)
          ultimately show ?thesis using b c uv by (simp add: add.assoc)
        qed
        have free2: "blk_free m2 x = blk_free m x" if "x \<in> set (b # rest)" for x
        proof (cases "x = b")
          case True
          then show ?thesis by (simp add: m2_def m1_def hdr_same)
        next
          case False
          with that have "x \<in> set rest" by simp
          from seg_bounds[OF rest this] bc have "unat b + 24 \<le> unat x" by simp
          then show ?thesis by (simp add: m2_def m1_def hdr_other)
        qed
        have "length (b # rest) < length bs" using bs by simp
        moreover have "0 \<notin> set (b # rest)" using less.prems(2) bs by auto
        ultimately obtain m' bs' where loop: "coalesce_loop m2 (hd ((b # rest) @ [0])) = Some m'"
          and seg': "seg m' 0 bs' lo hi"
          and hd': "hd (bs' @ [0]) = hd ((b # rest) @ [0])"
          and sub': "set bs' \<subseteq> set (b # rest)"
          and used': "\<forall>x\<in>set (b # rest). blk_free m2 x = 0 \<longrightarrow> x \<in> set bs'"
          and flags': "\<forall>x\<in>set bs'. blk_free m' x = blk_free m2 x"
          and noadj': "no_adjacent_free_in m' bs'"
          and frame': "\<forall>x. x \<notin> link_bytes m2 (b # rest) \<longrightarrow> m' x = m2 x"
          using less.hyps[OF _ seg2 _ less.prems(3)] by blast
        have lb: "link_bytes m2 (b # rest) \<subseteq> link_bytes m bs"
          using free2 unfolding link_bytes_def bs by auto
        have bl: "{x. unat b \<le> x \<and> x < unat b + 8 \<or> unat b + 16 \<le> x \<and> x < unat b + 24} \<subseteq> link_bytes m bs"
          using True unfolding link_bytes_def bs by auto
        have "coalesce_loop m (hd (bs @ [0])) = Some m'" using loop step bs by simp
        moreover have "hd (bs' @ [0]) = hd (bs @ [0])" using hd' bs by simp
        moreover have "set bs' \<subseteq> set bs" using sub' bs by auto
        moreover have "\<forall>x\<in>set bs. blk_free m x = 0 \<longrightarrow> x \<in> set bs'"
          using used' free2 True bs by auto
        moreover have "\<forall>x\<in>set bs'. blk_free m' x = blk_free m x"
          using flags' free2 sub' by auto
        moreover have "\<forall>x. x \<notin> link_bytes m bs \<longrightarrow> m' x = m x"
        proof (intro allI impI)
          fix x assume x: "x \<notin> link_bytes m bs"
          with lb frame' have "m' x = m2 x" by auto
          moreover from x bl have "m2 x = m x" by (intro out) auto
          ultimately show "m' x = m x" by simp
        qed
        ultimately show ?thesis using seg' noadj' by blast
      next
        case False
        have step: "coalesce_loop m b = coalesce_loop m c"
          using b0 c0 False nx by (subst coalesce_loop.simps) auto
        have segc: "seg m 0 (c # rest) (unat c) hi" using nxc rest by simp
        have "length (c # rest) < length bs" using bs by simp
        moreover have "0 \<notin> set (c # rest)" using less.prems(2) bs by auto
        ultimately obtain m' bs' where loop: "coalesce_loop m (hd ((c # rest) @ [0])) = Some m'"
          and seg': "seg m' 0 bs' (unat c) hi"
          and hd': "hd (bs' @ [0]) = hd ((c # rest) @ [0])"
          and sub': "set bs' \<subseteq> set (c # rest)"
          and used': "\<forall>x\<in>set (c # rest). blk_free m x = 0 \<longrightarrow> x \<in> set bs'"
          and flags': "\<forall>x\<in>set bs'. blk_free m' x = blk_free m x"
          and noadj': "no_adjacent_free_in m' bs'"
          and frame': "\<forall>x. x \<notin> link_bytes m (c # rest) \<longrightarrow> m' x = m x"
          using less.hyps[OF _ segc _ less.prems(3)] by blast
        from hd' c0 obtain bs'' where bs': "bs' = c # bs''" by (cases bs') auto
        have same_b: "m' x = m x" if "unat b \<le> x" "x < unat b + 24" for x
        proof -
          have "x \<notin> link_bytes m (c # rest)"
            using link_bytes_bounds[OF segc, of x] that bc by auto
          with frame' show ?thesis by simp
        qed
        have fb: "blk_size m' b = blk_size m b" "blk_free m' b = blk_free m b"
          "blk_next m' b = blk_next m b"
          using hdr_cong[of b m' m] same_b by auto
        have "coalesce_loop m (hd (bs @ [0])) = Some m'" using loop step bs by simp
        moreover have "seg m' 0 (b # bs') lo hi" using seg' fb b c nx bs' by simp
        moreover have "hd ((b # bs') @ [0]) = hd (bs @ [0])" using bs by simp
        moreover have "set (b # bs') \<subseteq> set bs" using sub' bs by auto
        moreover have "\<forall>x\<in>set bs. blk_free m x = 0 \<longrightarrow> x \<in> set (b # bs')"
          using used' bs by auto
        moreover have "\<forall>x\<in>set (b # bs'). blk_free m' x = blk_free m x"
          using flags' fb by auto
        moreover have "no_adjacent_free_in m' (b # bs')"
          using noadj' bs' fb flags' False by auto
        moreover have "\<forall>x. x \<notin> link_bytes m bs \<longrightarrow> m' x = m x"
          using frame' unfolding bs link_bytes_def by auto
        ultimately show ?thesis by blast
      qed
    qed
  qed
qed

section \<open>Releasing a block\<close>

definition blocks :: "heap_state \<Rightarrow> addr list" where
  "blocks s = chain_from (mem s) (head s)"

lemma heap_inv_seg:
  assumes "heap_inv s"
  shows "\<exists>lo. seg (mem s) 0 (blocks s) lo (unat (brk s)) \<and> 0 \<notin> set (blocks s)
           \<and> hd (blocks s @ [0]) = head s"
proof (cases "head s = 0")
  case True
  then have "blocks s = []" by (simp add: blocks_def chain_from.simps[of _ 0])
  with True show ?thesis by simp
next
  case False
  with assms have sg: "seg (mem s) 0 (blocks s) (unat (head s)) (unat (brk s))"
    by (simp add: heap_inv_def blocks_def)
  have ne: "blocks s \<noteq> []"
    using False by (simp add: blocks_def chain_from.simps[of "mem s" "head s"])
  from False have "0 < unat (head s)" by (simp add: unat_gt_0)
  from seg_nonzero[OF sg this] have "0 \<notin> set (blocks s)" .
  moreover from sg ne have "hd (blocks s @ [0]) = head s"
    by (cases "blocks s") (auto simp: word_unat_eq_iff)
  ultimately show ?thesis using sg by blast
qed

lemma heap_invI:
  assumes "unat (brk s) \<le> unat (brk_max s)"
    and "seg (mem s) 0 bs lo (unat (brk s))" and "0 \<notin> set bs" and "hd (bs @ [0]) = head s"
  shows "heap_inv s \<and> blocks s = bs"
proof (cases bs)
  case Nil
  with assms(4) have "head s = 0" by simp
  then show ?thesis using assms(1) Nil
    by (simp add: heap_inv_def blocks_def chain_from.simps[of _ 0])
next
  case (Cons b bs')
  with assms have h: "head s = b" "b \<noteq> 0" "unat b = lo" by auto
  then have "chain_from (mem s) (head s) = bs"
    using seg_chain_from[of "mem s" bs "head s" "unat (brk s)"] assms(2) Cons by simp
  then show ?thesis using assms(1,2) h by (simp add: heap_inv_def blocks_def)
qed

lemma seg_fields:
  "seg m t bs lo hi \<Longrightarrow>
     (\<And>c. c \<in> set bs \<Longrightarrow> blk_size m' c = blk_size m c \<and> blk_next m' c = blk_next m c) \<Longrightarrow>
     seg m' t bs lo hi"
  by (induction bs arbitrary: lo) auto

definition hdr :: "addr \<Rightarrow> nat set" where
  "hdr b = {x. unat b \<le> x \<and> x < unat b + 24}"

lemma link_bytes_hdr: "x \<in> link_bytes m bs \<Longrightarrow> \<exists>b\<in>set bs. blk_free m b \<noteq> 0 \<and> x \<in> hdr b"
  by (auto simp: link_bytes_def hdr_def)

lemma seg_set_free:
  assumes "seg m t bs lo hi" and "b \<in> set bs"
  shows "seg (set_free m b f) t bs lo hi"
proof (rule seg_fields[OF assms(1)])
  fix c assume c: "c \<in> set bs"
  show "blk_size (set_free m b f) c = blk_size m c \<and> blk_next (set_free m b f) c = blk_next m c"
  proof (cases "c = b")
    case True
    then show ?thesis by (simp add: hdr_same)
  next
    case False
    from seg_disjoint[OF assms(1) assms(2) c] False
    have "unat b + 24 \<le> unat c \<or> unat c + 24 \<le> unat b" by auto
    then show ?thesis by (simp add: hdr_other)
  qed
qed

lemma set_free_flags:
  assumes "seg m t bs lo hi" and "b \<in> set bs" and "c \<in> set bs"
  shows "blk_free (set_free m b f) c = (if c = b then f else blk_free m c)"
proof (cases "c = b")
  case True
  then show ?thesis by (simp add: hdr_same)
next
  case False
  from seg_disjoint[OF assms(1) assms(2) assms(3)] False
  have "unat b + 24 \<le> unat c \<or> unat c + 24 \<le> unat b" by auto
  then show ?thesis using False by (simp add: hdr_other)
qed

lemma my_free_seg:
  assumes sg: "seg (mem s) 0 bs lo (unat (brk s))" and nz: "0 \<notin> set bs"
    and hd: "hd (bs @ [0]) = head s" and p: "p \<noteq> 0" and b: "get_block_ptr p \<in> set bs"
  shows "\<exists>s' bs'. my_free s p = Some s'
           \<and> head s' = head s \<and> brk s' = brk s \<and> brk_max s' = brk_max s
           \<and> seg (mem s') 0 bs' lo (unat (brk s))
           \<and> hd (bs' @ [0]) = head s
           \<and> set bs' \<subseteq> set bs
           \<and> (\<forall>c\<in>set bs. c \<noteq> get_block_ptr p \<and> blk_free (mem s) c = 0 \<longrightarrow> c \<in> set bs')
           \<and> (\<forall>c\<in>set bs'. blk_free (mem s') c = (if c = get_block_ptr p then 1 else blk_free (mem s) c))
           \<and> no_adjacent_free_in (mem s') bs'
           \<and> (\<forall>x. x \<notin> hdr (get_block_ptr p)
                   \<and> (\<forall>c\<in>set bs. blk_free (mem s) c \<noteq> 0 \<longrightarrow> x \<notin> hdr c) \<longrightarrow> mem s' x = mem s x)"
proof -
  define b where "b = get_block_ptr p"
  define m1 where "m1 = set_free (mem s) b 1"
  have bin: "b \<in> set bs" using b by (simp add: b_def)
  have sg1: "seg m1 0 bs lo (unat (brk s))"
    unfolding m1_def using sg bin by (rule seg_set_free)
  have fl1: "\<And>c. c \<in> set bs \<Longrightarrow> blk_free m1 c = (if c = b then 1 else blk_free (mem s) c)"
    unfolding m1_def using sg bin by (rule set_free_flags)
  have "unat (brk s) < 2 ^ 64" using unsigned_less[of "brk s", where 'a=nat] by simp
  from coalesce_loop_seg[OF sg1 nz this]
  obtain m' bs' where loop: "coalesce_loop m1 (hd (bs @ [0])) = Some m'"
    and seg': "seg m' 0 bs' lo (unat (brk s))"
    and hd': "hd (bs' @ [0]) = hd (bs @ [0])"
    and sub': "set bs' \<subseteq> set bs"
    and used': "\<forall>x\<in>set bs. blk_free m1 x = 0 \<longrightarrow> x \<in> set bs'"
    and flags': "\<forall>x\<in>set bs'. blk_free m' x = blk_free m1 x"
    and noadj': "no_adjacent_free_in m' bs'"
    and frame': "\<forall>x. x \<notin> link_bytes m1 bs \<longrightarrow> m' x = m1 x"
    by blast
  have res: "my_free s p = Some (s\<lparr>mem := m'\<rparr>)"
    using p loop hd by (simp add: my_free_def coalesce_def Let_def b_def m1_def)
  have frame: "mem (s\<lparr>mem := m'\<rparr>) x = mem s x"
    if x: "x \<notin> hdr b" "\<forall>c\<in>set bs. blk_free (mem s) c \<noteq> 0 \<longrightarrow> x \<notin> hdr c" for x
  proof -
    have "x \<notin> link_bytes m1 bs"
    proof
      assume "x \<in> link_bytes m1 bs"
      then obtain c where c: "c \<in> set bs" "blk_free m1 c \<noteq> 0" "x \<in> hdr c"
        by (auto dest: link_bytes_hdr)
      with fl1[of c] x show False by (auto split: if_splits)
    qed
    with frame' have "m' x = m1 x" by simp
    moreover have "m1 x = mem s x"
      unfolding m1_def using x(1) by (intro set_outside) (auto simp: hdr_def)
    ultimately show ?thesis by simp
  qed
  show ?thesis
    apply (rule exI[of _ "s\<lparr>mem := m'\<rparr>"], rule exI[of _ bs'])
    using res seg' hd' hd sub' used' flags' noadj' frame fl1 sub'
    by (auto simp: b_def[symmetric])
qed

definition no_adjacent_free :: "heap_state \<Rightarrow> bool" where
  "no_adjacent_free s = no_adjacent_free_in (mem s) (blocks s)"

text \<open>
  A pointer an allocation call returned and no release has taken back: it points just
  past the header of a block of the chain that is marked used.
\<close>

definition live :: "heap_state \<Rightarrow> addr \<Rightarrow> bool" where
  "live s p = (p \<noteq> 0 \<and> get_block_ptr p \<in> set (blocks s) \<and> blk_free (mem s) (get_block_ptr p) = 0)"

text \<open>
  An example heap for the witnesses: four blocks, free (40 bytes), used (80), free (24)
  and used (16), as after three allocations, a fourth, and the release of the first and
  third. \<open>write_header\<close> writes a whole header, field by field in the order of
  \<^verbatim>\<open>request_space\<close>.
\<close>

definition write_header :: "memory \<Rightarrow> addr \<Rightarrow> addr \<Rightarrow> 32 word \<Rightarrow> addr \<Rightarrow> memory" where
  "write_header m b sz fr nx = set_next (set_free (set_size m b sz) b fr) b nx"

lemma write_header_same:
  "blk_size (write_header m b sz fr nx) b = sz"
  "blk_free (write_header m b sz fr nx) b = fr"
  "blk_next (write_header m b sz fr nx) b = nx"
  by (simp_all add: write_header_def hdr_same)

lemma write_header_other:
  assumes "unat b + 24 \<le> unat c \<or> unat c + 24 \<le> unat b"
  shows "blk_size (write_header m b sz fr nx) c = blk_size m c"
    and "blk_free (write_header m b sz fr nx) c = blk_free m c"
    and "blk_next (write_header m b sz fr nx) c = blk_next m c"
  using assms by (simp_all add: write_header_def hdr_other)

lemma write_header_outside:
  "x < unat b \<or> unat b + 24 \<le> x \<Longrightarrow> write_header m b sz fr nx x = m x"
  by (simp add: write_header_def set_outside)

definition example_heap :: heap_state where
  "example_heap =
     \<lparr>mem = write_header (write_header (write_header (write_header (\<lambda>_. 0)
              4096 40 1 4160) 4160 80 0 4264) 4264 24 1 4312) 4312 16 0 0,
      head = 4096, brk = 4352, brk_max = 8192, brk_min = 4096\<rparr>"

lemma example_heap_fields:
  "blk_size (mem example_heap) 4096 = 40" "blk_free (mem example_heap) 4096 = 1"
  "blk_next (mem example_heap) 4096 = 4160"
  "blk_size (mem example_heap) 4160 = 80" "blk_free (mem example_heap) 4160 = 0"
  "blk_next (mem example_heap) 4160 = 4264"
  "blk_size (mem example_heap) 4264 = 24" "blk_free (mem example_heap) 4264 = 1"
  "blk_next (mem example_heap) 4264 = 4312"
  "blk_size (mem example_heap) 4312 = 16" "blk_free (mem example_heap) 4312 = 0"
  "blk_next (mem example_heap) 4312 = 0"
  by (simp_all add: example_heap_def write_header_same write_header_other)

lemma example_heap_inv: "heap_inv example_heap \<and> blocks example_heap = [4096, 4160, 4264, 4312]"
proof (rule heap_invI)
  show "unat (brk example_heap) \<le> unat (brk_max example_heap)" by (simp add: example_heap_def)
  show "seg (mem example_heap) 0 [4096, 4160, 4264, 4312] 4096 (unat (brk example_heap))"
    by (simp add: example_heap_fields) (simp add: example_heap_def)
  show "0 \<notin> set [4096, 4160, 4264, 4312 :: addr]" by simp
  show "hd ([4096, 4160, 4264, 4312] @ [0]) = head example_heap" by (simp add: example_heap_def)
qed

lemma example_heap_live: "live example_heap 4184"
  by (simp add: live_def get_block_ptr_def BLOCK_SIZE_def example_heap_inv example_heap_fields)

lemma extent_not_hdr:
  assumes "seg m t bs lo hi" and "c \<in> set bs" and "d \<in> set bs" and "d \<noteq> c"
    and "unat c \<le> x" and "x < unat c + 24 + unat (blk_size m c)"
  shows "x \<notin> hdr d"
  using seg_disjoint[OF assms(1,2,3)] assms(4,5,6) by (auto simp: hdr_def)

lemma my_free_heap:
  assumes inv: "heap_inv s" and p: "p \<noteq> 0" and b: "get_block_ptr p \<in> set (blocks s)"
  shows "\<exists>s'. my_free s p = Some s' \<and> heap_inv s'
           \<and> head s' = head s \<and> brk s' = brk s \<and> brk_max s' = brk_max s
           \<and> set (blocks s') \<subseteq> set (blocks s)
           \<and> no_adjacent_free s'
           \<and> (get_block_ptr p \<in> set (blocks s') \<longrightarrow> blk_free (mem s') (get_block_ptr p) = 1)
           \<and> (\<forall>c\<in>set (blocks s). c \<noteq> get_block_ptr p \<and> blk_free (mem s) c = 0 \<longrightarrow>
                 c \<in> set (blocks s')
                 \<and> (\<forall>x. unat c \<le> x \<and> x < unat c + 24 + unat (blk_size (mem s) c)
                        \<longrightarrow> mem s' x = mem s x))
           \<and> (\<forall>x. x \<notin> hdr (get_block_ptr p)
                   \<and> (\<forall>c\<in>set (blocks s). blk_free (mem s) c \<noteq> 0 \<longrightarrow> x \<notin> hdr c)
                 \<longrightarrow> mem s' x = mem s x)"
proof -
  from heap_inv_seg[OF inv] obtain lo where sg: "seg (mem s) 0 (blocks s) lo (unat (brk s))"
    and nz: "0 \<notin> set (blocks s)" and hd: "hd (blocks s @ [0]) = head s" by blast
  from my_free_seg[OF sg nz hd p b]
  obtain s' bs' where res: "my_free s p = Some s'"
    and st: "head s' = head s" "brk s' = brk s" "brk_max s' = brk_max s"
    and seg': "seg (mem s') 0 bs' lo (unat (brk s))"
    and hd': "hd (bs' @ [0]) = head s"
    and sub: "set bs' \<subseteq> set (blocks s)"
    and used: "\<forall>c\<in>set (blocks s). c \<noteq> get_block_ptr p \<and> blk_free (mem s) c = 0 \<longrightarrow> c \<in> set bs'"
    and flags: "\<forall>c\<in>set bs'. blk_free (mem s') c = (if c = get_block_ptr p then 1 else blk_free (mem s) c)"
    and noadj: "no_adjacent_free_in (mem s') bs'"
    and frame: "\<forall>x. x \<notin> hdr (get_block_ptr p)
                   \<and> (\<forall>c\<in>set (blocks s). blk_free (mem s) c \<noteq> 0 \<longrightarrow> x \<notin> hdr c) \<longrightarrow> mem s' x = mem s x"
    by blast
  have bl: "heap_inv s' \<and> blocks s' = bs'"
  proof (rule heap_invI)
    show "unat (brk s') \<le> unat (brk_max s')" using inv st by (simp add: heap_inv_def)
    show "seg (mem s') 0 bs' lo (unat (brk s'))" using seg' st by simp
    show "0 \<notin> set bs'" using sub nz by auto
    show "hd (bs' @ [0]) = head s'" using hd' st by simp
  qed
  have keep: "c \<in> set (blocks s')
                 \<and> (\<forall>x. unat c \<le> x \<and> x < unat c + 24 + unat (blk_size (mem s) c)
                        \<longrightarrow> mem s' x = mem s x)"
    if c: "c \<in> set (blocks s)" "c \<noteq> get_block_ptr p" "blk_free (mem s) c = 0" for c
  proof -
    have "mem s' x = mem s x"
      if x: "unat c \<le> x" "x < unat c + 24 + unat (blk_size (mem s) c)" for x
    proof -
      have "x \<notin> hdr (get_block_ptr p)"
        using extent_not_hdr[OF sg c(1) b _ x] c(2) by auto
      moreover have "x \<notin> hdr d" if d: "d \<in> set (blocks s)" "blk_free (mem s) d \<noteq> 0" for d
      proof -
        from d c(3) have "d \<noteq> c" by auto
        from extent_not_hdr[OF sg c(1) d(1) this x] show ?thesis .
      qed
      ultimately show ?thesis using frame by blast
    qed
    moreover have "c \<in> set (blocks s')" using used c bl by auto
    ultimately show ?thesis by blast
  qed
  have "no_adjacent_free s'" using noadj bl by (simp add: no_adjacent_free_def)
  moreover have "get_block_ptr p \<in> set (blocks s') \<longrightarrow> blk_free (mem s') (get_block_ptr p) = 1"
    using flags bl by auto
  moreover have "set (blocks s') \<subseteq> set (blocks s)" using sub bl by simp
  ultimately show ?thesis
    apply (intro exI[of _ s'])
    using res st bl keep frame by blast
qed





section \<open>Splitting a block\<close>

lemma unat_ALIGNMENT [simp]: "unat ALIGNMENT = 8"
  by (simp add: ALIGNMENT_def)

lemma split_guard:
  "unat sz + 32 < 2 ^ 64 \<Longrightarrow>
     (sz + BLOCK_SIZE + ALIGNMENT \<le> c) = (unat sz + 32 \<le> unat c)"
proof -
  assume a: "unat sz + 32 < 2 ^ 64"
  have "unat (sz + BLOCK_SIZE) = unat sz + 24"
    using a by (subst unat_plus_simple) auto
  then have "unat (sz + BLOCK_SIZE + ALIGNMENT) = unat sz + 32"
    using a by (subst unat_plus_simple) auto
  then show ?thesis by (simp add: word_le_nat_alt)
qed

lemma split_block_whole:
  "unat sz + 32 < 2 ^ 64 \<Longrightarrow> unat (blk_size m b) < unat sz + 32 \<Longrightarrow> split_block m b sz = m"
  by (simp add: split_block_def split_guard)

lemma split_block_fields:
  assumes g: "unat sz + 32 \<le> unat (blk_size m b)"
    and fit: "unat b + 24 + unat (blk_size m b) \<le> 2 ^ 64"
  defines "nb \<equiv> b + BLOCK_SIZE + sz"
  defines "m' \<equiv> split_block m b sz"
  shows "unat nb = unat b + 24 + unat sz"
    and "blk_size m' b = sz" and "blk_free m' b = blk_free m b" and "blk_next m' b = nb"
    and "unat (blk_size m' nb) = unat (blk_size m b) - unat sz - 24"
    and "blk_size m' nb = blk_size m b - sz - BLOCK_SIZE"
    and "blk_free m' nb = 1" and "blk_next m' nb = blk_next m b"
    and "\<And>x. x < unat b \<or> unat b + 24 + unat (blk_size m b) \<le> x \<Longrightarrow> m' x = m x"
    and "\<And>x. unat b + 24 \<le> x \<Longrightarrow> x < unat nb \<Longrightarrow> m' x = m x"
proof -
  have lt: "unat (blk_size m b) < 2 ^ 64"
    using unsigned_less[of "blk_size m b", where 'a=nat] by simp
  have nw: "unat sz + 32 < 2 ^ 64" using g lt by simp
  have "unat (b + BLOCK_SIZE) = unat b + 24"
    using g fit by (subst unat_plus_simple) auto
  then show nb: "unat nb = unat b + 24 + unat sz"
    unfolding nb_def using g fit by (subst unat_plus_simple) auto
  have d: "unat b + 24 \<le> unat nb" using nb by simp
  have d': "unat nb + 24 \<le> unat b \<or> unat b + 24 \<le> unat nb" using d by simp
  have d'': "unat b + 24 \<le> unat nb \<or> unat nb + 24 \<le> unat b" using d by simp
  have guard: "sz + BLOCK_SIZE + ALIGNMENT \<le> blk_size m b"
    using g nw by (simp add: split_guard)
  define m1 where "m1 = set_size m nb (blk_size m b - sz - BLOCK_SIZE)"
  define m2 where "m2 = set_free m1 nb 1"
  define m3 where "m3 = set_next m2 nb (blk_next m b)"
  define m4 where "m4 = set_size m3 b sz"
  have n2: "blk_next m2 b = blk_next m b"
    using d' by (simp add: m2_def m1_def hdr_other)
  have m': "m' = set_next m4 b nb"
    unfolding m'_def split_block_def using guard n2
    by (simp add: Let_def nb_def m4_def m3_def m2_def m1_def)
  show "blk_size m' b = sz" by (simp add: m' m4_def hdr_same)
  show "blk_next m' b = nb" by (simp add: m' hdr_same)
  show "blk_free m' b = blk_free m b"
    using d' by (simp add: m' m4_def m3_def m2_def m1_def hdr_same hdr_other)
  show sz': "blk_size m' nb = blk_size m b - sz - BLOCK_SIZE"
    using d'' by (simp add: m' m4_def m3_def m2_def m1_def hdr_same hdr_other)
  have "sz \<le> blk_size m b" using g by (simp add: word_le_nat_alt)
  then have "unat (blk_size m b - sz) = unat (blk_size m b) - unat sz"
    by (simp add: unat_sub)
  moreover have "BLOCK_SIZE \<le> blk_size m b - sz"
    using g calculation by (simp add: word_le_nat_alt)
  ultimately show "unat (blk_size m' nb) = unat (blk_size m b) - unat sz - 24"
    unfolding sz' by (simp add: unat_sub)
  show "blk_free m' nb = 1"
    using d'' by (simp add: m' m4_def m3_def m2_def hdr_same hdr_other)
  show "blk_next m' nb = blk_next m b"
    using d'' by (simp add: m' m4_def m3_def hdr_same hdr_other)
  show "m' x = m x" if "x < unat b \<or> unat b + 24 + unat (blk_size m b) \<le> x" for x
  proof -
    have o: "x < unat b \<or> unat b + 24 \<le> x" "x < unat nb \<or> unat nb + 24 \<le> x"
      using that nb g by auto
    then show ?thesis
      by (simp add: m' m4_def m3_def m2_def m1_def set_outside)
  qed
  show "m' x = m x" if "unat b + 24 \<le> x" "x < unat nb" for x
  proof -
    have o: "x < unat b \<or> unat b + 24 \<le> x" "x < unat nb \<or> unat nb + 24 \<le> x"
      using that by auto
    then show ?thesis
      by (simp add: m' m4_def m3_def m2_def m1_def set_outside)
  qed
qed

lemma split_cond:
  "(uint ALIGNMENT \<le> uint (c :: addr) - uint (sz :: addr) - uint BLOCK_SIZE) = (unat sz + 32 \<le> unat c)"
proof -
  have "uint ALIGNMENT = 8" "uint BLOCK_SIZE = 24" by (simp_all add: ALIGNMENT_def BLOCK_SIZE_def)
  moreover have "uint c = int (unat c)" "uint sz = int (unat sz)" by simp_all
  ultimately show ?thesis by linarith
qed

text \<open>
  Both conditions of the amended claim hold wherever the allocator splits in a
  well-formed heap: for a block of the chain at an address of at least the alignment,
  and a request that fits it, as the search and \<^verbatim>\<open>my_realloc\<close> ensure before they call
  \<^verbatim>\<open>split_block\<close>.
\<close>

lemma split_block_in_heap:
  assumes inv: "heap_inv s" and b: "b \<in> set (blocks s)"
    and fits: "sz \<le> blk_size (mem s) b" and al: "unat ALIGNMENT \<le> unat b"
  shows "unat b + unat BLOCK_SIZE + unat (blk_size (mem s) b) \<le> 2 ^ 64"
    and "unat sz + unat BLOCK_SIZE + unat ALIGNMENT < 2 ^ 64"
proof -
  from heap_inv_seg[OF inv] obtain lo where sg: "seg (mem s) 0 (blocks s) lo (unat (brk s))"
    by blast
  have top: "unat (brk s) < 2 ^ 64" using unsigned_less[of "brk s", where 'a=nat] by simp
  from seg_bounds[OF sg b] have e: "unat b + 24 + unat (blk_size (mem s) b) \<le> unat (brk s)"
    by simp
  from fits have le: "unat sz \<le> unat (blk_size (mem s) b)" by (simp add: word_le_nat_alt)
  from al have a8: "8 \<le> unat b" by (simp add: ALIGNMENT_def)
  show "unat b + unat BLOCK_SIZE + unat (blk_size (mem s) b) \<le> 2 ^ 64"
    using e top by simp
  have "unat sz + 24 + 8 < 2 ^ 64" using e top le a8 by linarith
  then show "unat sz + unat BLOCK_SIZE + unat ALIGNMENT < 2 ^ 64"
    by (simp add: ALIGNMENT_def)
qed

text \<open>
  C6, as amended. For a block that lies within the address space and a request \<open>sz\<close> for
  which \<open>sz + BLOCK_SIZE + ALIGNMENT\<close> does not wrap around: if the capacity minus the
  request minus the header size (as integers) is at least the alignment, then after
  \<^verbatim>\<open>split_block\<close> the block has size \<open>sz\<close>, its successor is the block at the old payload
  start plus \<open>sz\<close>, which is free and has the capacity minus \<open>sz\<close> minus the header size,
  and the two sizes and one header sum to the old capacity; otherwise nothing changes.
\<close>

theorem split_block_correct:
  assumes "unat b + unat BLOCK_SIZE + unat (blk_size m b) \<le> 2 ^ 64"
    and "unat sz + unat BLOCK_SIZE + unat ALIGNMENT < 2 ^ 64"
  shows "if uint ALIGNMENT \<le> uint (blk_size m b) - uint sz - uint BLOCK_SIZE
         then blk_size (split_block m b sz) b = sz
            \<and> blk_next (split_block m b sz) b = b + BLOCK_SIZE + sz
            \<and> unat (b + BLOCK_SIZE + sz) = unat b + unat BLOCK_SIZE + unat sz
            \<and> blk_free (split_block m b sz) (b + BLOCK_SIZE + sz) \<noteq> 0
            \<and> uint (blk_size (split_block m b sz) (b + BLOCK_SIZE + sz))
                = uint (blk_size m b) - uint sz - uint BLOCK_SIZE
            \<and> uint (blk_size (split_block m b sz) b)
                + uint (blk_size (split_block m b sz) (b + BLOCK_SIZE + sz)) + uint BLOCK_SIZE
                = uint (blk_size m b)
         else split_block m b sz = m"
proof (cases "unat sz + 32 \<le> unat (blk_size m b)")
  case True
  have fit: "unat b + 24 + unat (blk_size m b) \<le> 2 ^ 64" using assms(1) by simp
  note f = split_block_fields[OF True fit]
  have c: "uint ALIGNMENT \<le> uint (blk_size m b) - uint sz - uint BLOCK_SIZE"
    using True by (simp only: split_cond)
  have u: "uint (blk_size (split_block m b sz) (b + BLOCK_SIZE + sz))
          = uint (blk_size m b) - uint sz - uint BLOCK_SIZE"
  proof -
    have "int (unat (blk_size (split_block m b sz) (b + BLOCK_SIZE + sz)))
            = int (unat (blk_size m b)) - int (unat sz) - 24"
      using f(5) True by linarith
    moreover have "uint BLOCK_SIZE = 24" by (simp add: BLOCK_SIZE_def)
    ultimately show ?thesis by simp
  qed
  have "unat (b + BLOCK_SIZE + sz) = unat b + unat BLOCK_SIZE + unat sz"
    using f(1) by simp
  moreover have "blk_free (split_block m b sz) (b + BLOCK_SIZE + sz) \<noteq> 0"
    using f(7) by simp
  moreover have "uint (blk_size (split_block m b sz) b)
                + uint (blk_size (split_block m b sz) (b + BLOCK_SIZE + sz)) + uint BLOCK_SIZE
                = uint (blk_size m b)"
    unfolding u f(2) by simp
  ultimately show ?thesis using c f(2) f(4) u by simp
next
  case False
  then have c: "\<not> uint ALIGNMENT \<le> uint (blk_size m b) - uint sz - uint BLOCK_SIZE"
    by (simp only: split_cond not_False_eq_True)
  have "split_block m b sz = m"
    using False assms(2) by (intro split_block_whole) auto
  with c show ?thesis by simp
qed

theorem split_block_correct_witness:
  "unat (4160 :: addr) + unat BLOCK_SIZE + unat (blk_size (mem example_heap) 4160) \<le> 2 ^ 64
   \<and> unat (24 :: addr) + unat BLOCK_SIZE + unat ALIGNMENT < 2 ^ 64
   \<and> uint ALIGNMENT \<le> uint (blk_size (mem example_heap) 4160) - uint (24 :: addr) - uint BLOCK_SIZE
   \<and> blk_size (split_block (mem example_heap) 4160 24) 4160 = 24
   \<and> blk_next (split_block (mem example_heap) 4160 24) 4160 = 4208
   \<and> blk_free (split_block (mem example_heap) 4160 24) 4208 \<noteq> 0
   \<and> blk_size (split_block (mem example_heap) 4160 24) 4208 = 32"
proof -
  have h: "unat (4160 :: addr) + unat BLOCK_SIZE + unat (blk_size (mem example_heap) 4160) \<le> 2 ^ 64"
    "unat (24 :: addr) + unat BLOCK_SIZE + unat ALIGNMENT < 2 ^ 64"
    by (simp_all add: example_heap_fields)
  have c: "uint ALIGNMENT \<le> uint (blk_size (mem example_heap) 4160) - uint (24 :: addr) - uint BLOCK_SIZE"
    by (simp add: example_heap_fields ALIGNMENT_def BLOCK_SIZE_def)
  have a: "(4160 :: addr) + BLOCK_SIZE + 24 = 4208" by (simp add: BLOCK_SIZE_def)
  from split_block_correct[OF h] c
  have r: "blk_size (split_block (mem example_heap) 4160 24) 4160 = 24"
    "blk_next (split_block (mem example_heap) 4160 24) 4160 = 4160 + BLOCK_SIZE + 24"
    "blk_free (split_block (mem example_heap) 4160 24) (4160 + BLOCK_SIZE + 24) \<noteq> 0"
    "uint (blk_size (split_block (mem example_heap) 4160 24) (4160 + BLOCK_SIZE + 24))
       = uint (blk_size (mem example_heap) 4160) - uint (24 :: addr) - uint BLOCK_SIZE"
    by simp_all
  from r(4) have "uint (blk_size (split_block (mem example_heap) 4160 24) 4208) = uint (32 :: addr)"
    unfolding a by (simp add: example_heap_fields BLOCK_SIZE_def)
  then have "blk_size (split_block (mem example_heap) 4160 24) 4208 = 32"
    by (simp only: word_uint_eq_iff)
  then show ?thesis using r(1,2,3) c h unfolding a by simp
qed

section \<open>Extending the arena\<close>

lemma and_not_7: "(y :: addr) AND NOT 7 = push_bit 3 (drop_bit 3 y)"
proof -
  have "(7 :: addr) = mask 3" by (simp add: mask_eq_exp_minus_1)
  then show ?thesis
    by (auto simp: bit_eq_iff bit_simps)
qed

lemma unat_and_not_7: "unat ((y :: addr) AND NOT 7) = unat y div 8 * 8"
proof -
  have d: "unat (drop_bit 3 y) = unat y div 8" by (simp add: drop_bit_eq_div unat_div)
  have "unat y < 2 ^ 64" using unsigned_less[of y, where 'a=nat] by simp
  with d have "unat (drop_bit 3 y) * 8 < 2 ^ 64" by simp
  then have "unat (push_bit 3 (drop_bit 3 y)) = unat (drop_bit 3 y) * 8"
    by (simp add: push_bit_eq_mult unat_word_ariths)
  with d show ?thesis by (simp only: and_not_7)
qed

lemma unat_ALIGN: "unat sz + 7 < 2 ^ 64 \<Longrightarrow> unat (ALIGN sz) = (unat sz + 7) div 8 * 8"
proof -
  assume "unat sz + 7 < 2 ^ 64"
  then have u: "unat (sz + 7) = unat sz + 7" by (subst unat_plus_simple) auto
  have e: "ALIGN sz = (sz + 7) AND NOT 7" by (simp add: ALIGN_def ALIGNMENT_def)
  show ?thesis unfolding e unat_and_not_7 u ..
qed

lemma ALIGN_bounds:
  assumes "unat sz + 7 < 2 ^ 64"
  shows "unat sz \<le> unat (ALIGN sz)" and "unat (ALIGN sz) \<le> unat sz + 7"
    and "8 dvd unat (ALIGN sz)"
proof -
  define n where "n = unat sz + 7"
  have e: "unat (ALIGN sz) = n div 8 * 8" using unat_ALIGN[OF assms] by (simp add: n_def)
  have "n div 8 * 8 \<le> n" "n < n div 8 * 8 + 8" by presburger+
  then show "unat sz \<le> unat (ALIGN sz)" "unat (ALIGN sz) \<le> unat sz + 7"
    unfolding e by (simp_all add: n_def)
  show "8 dvd unat (ALIGN sz)" unfolding e by simp
qed

lemma seg_retarget:
  "seg m t bs lo hi \<Longrightarrow> bs \<noteq> [] \<Longrightarrow> seg (set_next m (last bs) t') t' bs lo hi"
proof (induction bs arbitrary: lo)
  case Nil
  then show ?case by simp
next
  case (Cons b bs)
  from Cons.prems(1) have b: "unat b = lo" and nx: "blk_next m b = hd (bs @ [t])"
    and rest: "seg m t bs (lo + 24 + unat (blk_size m b)) hi" by auto
  show ?case
  proof (cases "bs = []")
    case True
    with b rest show ?thesis by (simp add: hdr_same)
  next
    case False
    then have l: "last bs \<in> set bs" by simp
    from seg_bounds[OF rest l] b have d: "unat (last bs) + 24 \<le> unat b \<or> unat b + 24 \<le> unat (last bs)"
      by simp
    have "seg (set_next m (last bs) t') t' bs (lo + 24 + unat (blk_size m b)) hi"
      using rest False by (rule Cons.IH)
    moreover have "hd (bs @ [t']) = hd (bs @ [t])" using False by (cases bs) auto
    ultimately show ?thesis using b nx False d by (simp add: hdr_other)
  qed
qed

lemma seg_last_bounds:
  "seg m t bs lo hi \<Longrightarrow> bs \<noteq> [] \<Longrightarrow> unat (last bs) + 24 + unat (blk_size m (last bs)) = hi"
proof (induction bs arbitrary: lo)
  case Nil
  then show ?case by simp
next
  case (Cons b bs)
  then show ?case by (cases "bs = []") auto
qed

text \<open>
  A granted \<^verbatim>\<open>request_space\<close> at the tail of a well-formed chain: the new block sits at
  the old break, and the chain grows by it.
\<close>

lemma request_space_seg:
  assumes sg: "seg (mem s) 0 bs lo (unat (brk s))" and nz: "0 \<notin> set bs"
    and nw: "unat sz + 24 < 2 ^ 63"
    and ok: "unat (brk s) + 24 + unat sz \<le> unat (brk_max s)"
  shows "\<exists>s'. request_space s (last (0 # bs)) sz = (brk s, s')
           \<and> head s' = head s \<and> brk_max s' = brk_max s
           \<and> unat (brk s') = unat (brk s) + 24 + unat sz
           \<and> seg (mem s') 0 (bs @ [brk s]) lo (unat (brk s'))
           \<and> blk_size (mem s') (brk s) = sz \<and> blk_free (mem s') (brk s) = 0
           \<and> (\<forall>x. x < unat (brk s)
                   \<and> \<not> (bs \<noteq> [] \<and> unat (last bs) + 16 \<le> x \<and> x < unat (last bs) + 24)
                 \<longrightarrow> mem s' x = mem s x)"
proof -
  define l where "l = last (0 # bs)"
  define k where "k = brk s"
  define m1 where "m1 = (if l \<noteq> 0 then set_next (mem s) l k else mem s)"
  define m4 where "m4 = set_next (set_free (set_size m1 k sz) k 0) k 0"
  define s' where "s' = s\<lparr>brk := k + (BLOCK_SIZE + sz), mem := m4\<rparr>"
  have un: "unat (BLOCK_SIZE + sz) = 24 + unat sz"
    using nw by (subst unat_plus_simple) auto
  have pos: "unat (BLOCK_SIZE + sz) < 2 ^ 63" using nw un by simp
  have lim: "unat (brk_max s) < 2 ^ 64" using unsigned_less[of "brk_max s", where 'a=nat] by simp
  have ub: "unat (k + (BLOCK_SIZE + sz)) = unat k + 24 + unat sz"
    using ok lim un unfolding k_def by (subst unat_plus_simple) auto
  have grant: "sbrk s (BLOCK_SIZE + sz) = Some (k, s\<lparr>brk := k + (BLOCK_SIZE + sz)\<rparr>)"
    using ok un by (simp add: sbrk_grow[OF pos] k_def)
  have res: "request_space s l sz = (k, s')"
    unfolding request_space_def grant
    by (simp add: Let_def k_def[symmetric] s'_def m4_def m1_def)
  have l0: "(l \<noteq> 0) = (bs \<noteq> [])"
  proof (cases "bs = []")
    case True
    then show ?thesis by (simp add: l_def)
  next
    case False
    then have "last bs \<in> set bs" by simp
    with nz have "last bs \<noteq> 0" by auto
    with False show ?thesis by (simp add: l_def)
  qed
  have lb: "l = last bs" if "bs \<noteq> []" using that unfolding l_def by simp
  have sg1: "seg m1 k bs lo (unat k)"
  proof (cases "bs = []")
    case True
    with sg show ?thesis by (simp add: k_def)
  next
    case False
    with l0 lb have "m1 = set_next (mem s) (last bs) k" by (simp add: m1_def)
    with seg_retarget[OF sg False, of k] show ?thesis by (simp add: k_def)
  qed
  have out4: "m4 x = m1 x" if "x < unat k" for x
    unfolding m4_def using that by (simp add: set_outside)
  have sg4: "seg m4 k bs lo (unat k)"
    using sg1 by (rule seg_cong) (simp add: out4)
  have "seg m4 0 (bs @ [k]) lo (unat k + 24 + unat sz)"
    using sg4 by (auto simp: seg_append m4_def hdr_same)
  moreover have "blk_size m4 k = sz" "blk_free m4 k = 0" by (simp_all add: m4_def hdr_same)
  moreover have "m4 x = mem s x"
    if x: "x < unat k" "\<not> (bs \<noteq> [] \<and> unat (last bs) + 16 \<le> x \<and> x < unat (last bs) + 24)" for x
  proof -
    have "m1 x = mem s x"
    proof (cases "bs = []")
      case True
      with l0 show ?thesis by (simp add: m1_def)
    next
      case False
      with l0 lb have "m1 = set_next (mem s) (last bs) k" by (simp add: m1_def)
      moreover have "x < unat (last bs) + 16 \<or> unat (last bs) + 24 \<le> x" using x(2) False by auto
      ultimately show ?thesis by (simp add: set_next_outside)
    qed
    with out4[OF x(1)] show ?thesis by simp
  qed
  ultimately show ?thesis
    using res ub unfolding l_def[symmetric]
    by (intro exI[of _ s']) (simp add: s'_def k_def[symmetric] add.assoc)
qed

lemma hdr_cong_size_free:
  assumes "\<And>x. unat b \<le> x \<Longrightarrow> x < unat b + 16 \<Longrightarrow> m' x = m x"
  shows "blk_size m' b = blk_size m b" and "blk_free m' b = blk_free m b"
  unfolding blk_size_def blk_free_def
  by (rule rd64_cong rd32_cong, simp add: assms)+

text \<open>
  \<^verbatim>\<open>split_block\<close> on a block of a well-formed chain: the chain stays well-formed, with the
  new block (if any) right behind the split one; nothing outside the block's extent
  changes.
\<close>

lemma split_block_seg:
  assumes sg: "seg m t bs lo hi" and b: "b \<in> set bs" and hi: "hi \<le> 2 ^ 64"
    and nw: "unat sz + 32 < 2 ^ 64" and nz: "0 \<notin> set bs"
  shows "\<exists>bs'. seg (split_block m b sz) t bs' lo hi
           \<and> set bs \<subseteq> set bs' \<and> 0 \<notin> set bs'
           \<and> hd (bs' @ [t]) = hd (bs @ [t])
           \<and> blk_free (split_block m b sz) b = blk_free m b
           \<and> blk_size (split_block m b sz) b
               = (if unat sz + 32 \<le> unat (blk_size m b) then sz else blk_size m b)
           \<and> (\<forall>x. x < unat b \<or> unat b + 24 + unat (blk_size m b) \<le> x
                 \<longrightarrow> split_block m b sz x = m x)"
proof (cases "unat sz + 32 \<le> unat (blk_size m b)")
  case False
  then have "split_block m b sz = m" using nw by (intro split_block_whole) auto
  with False sg nz show ?thesis by (intro exI[of _ bs]) simp
next
  case True
  define m' where "m' = split_block m b sz"
  define nb where "nb = b + BLOCK_SIZE + sz"
  from seg_split[OF sg b] obtain xs ys where bs: "bs = xs @ b # ys"
    and sx: "seg m b xs lo (unat b)" and sy: "seg m t (b # ys) (unat b) hi" by blast
  from sy have nxb: "blk_next m b = hd (ys @ [t])"
    and rest: "seg m t ys (unat b + 24 + unat (blk_size m b)) hi" by auto
  from seg_le[OF rest] hi have fit: "unat b + 24 + unat (blk_size m b) \<le> 2 ^ 64" by simp
  note f = split_block_fields[OF True fit, folded nb_def m'_def]
  have sx': "seg m' b xs lo (unat b)"
    using sx by (rule seg_cong) (simp add: f(9))
  have rest': "seg m' t ys (unat b + 24 + unat (blk_size m b)) hi"
    using rest by (rule seg_cong) (simp add: f(9))
  have e: "unat nb + 24 + unat (blk_size m' nb) = unat b + 24 + unat (blk_size m b)"
    using f(1) f(5) True by simp
  have "seg m' t ys (unat nb + 24 + unat (blk_size m' nb)) hi"
    unfolding e by (rule rest')
  then have "seg m' t (nb # ys) (unat nb) hi"
    using f(8) nxb by simp
  then have "seg m' t (b # nb # ys) (unat b) hi"
    using f(1) f(2) f(4) by simp
  with sx' have "seg m' t (xs @ b # nb # ys) lo hi"
    by (auto simp: seg_append)
  moreover have "nb \<noteq> 0" using f(1) by (auto simp: unat_gt_0[symmetric])
  then have "0 \<notin> set (xs @ b # nb # ys)" using nz bs by auto
  moreover have "set bs \<subseteq> set (xs @ b # nb # ys)" using bs by auto
  moreover have "hd ((xs @ b # nb # ys) @ [t]) = hd (bs @ [t])"
    unfolding bs by (cases xs) auto
  ultimately show ?thesis
    using f(2) f(3) f(9) True unfolding m'_def
    by (intro exI[of _ "xs @ b # nb # ys"]) simp
qed

section \<open>Allocation\<close>

text \<open>
  A request the allocator can serve: aligning the size, adding the header and (in the
  guard of \<^verbatim>\<open>split_block\<close>) the alignment stay below \<open>2^63\<close>, that is
  \<open>size \<le> 2^63 - 40\<close> (\<^verbatim>\<open>PTRDIFF_MAX - 39\<close>). Then nothing wraps around in \<^verbatim>\<open>size_t\<close>, and the byte count
  \<^verbatim>\<open>request_space\<close> passes to \<^verbatim>\<open>sbrk\<close> is not negative as an \<^verbatim>\<open>intptr_t\<close>.
\<close>

definition request_ok :: "addr \<Rightarrow> bool" where
  "request_ok sz = (unat sz + 7 + unat BLOCK_SIZE + unat ALIGNMENT < 2 ^ 63)"

lemma get_block_ptr_add [simp]: "get_block_ptr (b + BLOCK_SIZE) = b"
  by (simp add: get_block_ptr_def)

lemma sbrk_refused:
  "unat n < 2 ^ 63 \<Longrightarrow> \<not> unat (brk s) + unat n \<le> unat (brk_max s) \<Longrightarrow> sbrk s n = None"
  by (simp add: sbrk_grow)

lemma request_space_refused: "sbrk s (BLOCK_SIZE + sz) = None \<Longrightarrow> request_space s l sz = (0, s)"
  by (simp add: request_space_def)

text \<open>The two ways \<^verbatim>\<open>my_malloc\<close> reaches \<^verbatim>\<open>request_space\<close>, in a well-formed heap.\<close>

lemma my_malloc_extend:
  assumes inv: "heap_inv s" and sz0: "sz0 \<noteq> 0"
    and nofit: "snd (first_fit (mem s) (ALIGN sz0) (head s) (blocks s)) = 0"
  shows "my_malloc s sz0 =
           (case request_space s (last (0 # blocks s)) (ALIGN sz0) of
              (block, s1) \<Rightarrow>
                if block = 0 then Some (0, s1)
                else Some (block + BLOCK_SIZE, if head s = 0 then s1\<lparr>head := block\<rparr> else s1))"
proof (cases "head s = 0")
  case True
  then have "blocks s = []" by (simp add: blocks_def chain_from.simps[of _ 0])
  with True sz0 show ?thesis by (simp add: my_malloc_def Let_def split: prod.splits)
next
  case False
  from heap_inv_seg[OF inv] obtain lo where sg: "seg (mem s) 0 (blocks s) lo (unat (brk s))"
    and nz: "0 \<notin> set (blocks s)" and hd: "hd (blocks s @ [0]) = head s" by blast
  from False hd have ne: "blocks s \<noteq> []" by auto
  have ff: "find_free_block_first_fit s (head s) (ALIGN sz0)
              = Some (first_fit (mem s) (ALIGN sz0) (head s) (blocks s))"
    unfolding find_free_block_first_fit_def
    using first_fit_loop_seg[OF sg nz, of "ALIGN sz0" "head s"] hd by simp
  from first_fit_none[OF nofit nz] ne
  have "fst (first_fit (mem s) (ALIGN sz0) (head s) (blocks s)) = last (0 # blocks s)" by simp
  with nofit have "first_fit (mem s) (ALIGN sz0) (head s) (blocks s) = (last (0 # blocks s), 0)"
    by (cases "first_fit (mem s) (ALIGN sz0) (head s) (blocks s)") simp
  with False sz0 ff show ?thesis
    by (simp add: my_malloc_def Let_def split: prod.splits)
qed

lemma my_malloc_reuse:
  assumes inv: "heap_inv s" and sz0: "sz0 \<noteq> 0"
    and fit: "snd (first_fit (mem s) (ALIGN sz0) (head s) (blocks s)) = b" and b: "b \<noteq> 0"
  shows "my_malloc s sz0 =
           Some (b + BLOCK_SIZE, s\<lparr>mem := set_free (split_block (mem s) b (ALIGN sz0)) b 0\<rparr>)"
proof -
  have h: "head s \<noteq> 0"
  proof
    assume "head s = 0"
    then have "blocks s = []" by (simp add: blocks_def chain_from.simps[of _ 0])
    with fit b show False by simp
  qed
  from heap_inv_seg[OF inv] obtain lo where sg: "seg (mem s) 0 (blocks s) lo (unat (brk s))"
    and nz: "0 \<notin> set (blocks s)" and hd: "hd (blocks s @ [0]) = head s" by blast
  have ff: "find_free_block_first_fit s (head s) (ALIGN sz0)
              = Some (first_fit (mem s) (ALIGN sz0) (head s) (blocks s))"
    unfolding find_free_block_first_fit_def
    using first_fit_loop_seg[OF sg nz, of "ALIGN sz0" "head s"] hd by simp
  show ?thesis
    using h sz0 ff fit b
    by (cases "first_fit (mem s) (ALIGN sz0) (head s) (blocks s)")
       (simp add: my_malloc_def Let_def)
qed

lemma request_ok_ALIGN:
  assumes "request_ok sz0"
  shows "unat sz0 \<le> unat (ALIGN sz0)" and "unat (ALIGN sz0) + 32 < 2 ^ 64"
    and "unat (ALIGN sz0) + 32 < 2 ^ 63"
proof -
  from assms have a: "unat sz0 + 39 < 2 ^ 63" by (simp add: request_ok_def BLOCK_SIZE_def ALIGNMENT_def)
  then have "unat sz0 + 7 < 2 ^ 64" by simp
  from ALIGN_bounds[OF this] a show "unat sz0 \<le> unat (ALIGN sz0)" "unat (ALIGN sz0) + 32 < 2 ^ 64"
    "unat (ALIGN sz0) + 32 < 2 ^ 63"
    by simp_all
qed

text \<open>
  What \<^verbatim>\<open>my_malloc\<close> does in a well-formed heap, for a request of at most \<open>2^63 - 40\<close>
  bytes: it returns, the heap stays well-formed, a non-null result is the payload of a
  used block of at least the requested size that was not in use before, and the blocks
  in use keep their place, size, flag and payload.
\<close>

lemma my_malloc_heap:
  assumes inv: "heap_inv s" and rq: "request_ok sz0"
  shows "\<exists>r s'. my_malloc s sz0 = Some (r, s') \<and> heap_inv s' \<and> brk_max s' = brk_max s
           \<and> (r \<noteq> 0 \<longrightarrow>
                 get_block_ptr r \<in> set (blocks s') \<and> unat r = unat (get_block_ptr r) + 24
                 \<and> blk_free (mem s') (get_block_ptr r) = 0
                 \<and> unat sz0 \<le> unat (blk_size (mem s') (get_block_ptr r))
                 \<and> \<not> (get_block_ptr r \<in> set (blocks s) \<and> blk_free (mem s) (get_block_ptr r) = 0))
           \<and> (\<forall>c\<in>set (blocks s). blk_free (mem s) c = 0 \<longrightarrow>
                 c \<in> set (blocks s')
                 \<and> (\<forall>x. unat c \<le> x \<and> x < unat c + 24 + unat (blk_size (mem s) c)
                          \<and> \<not> (unat c + 16 \<le> x \<and> x < unat c + 24)
                        \<longrightarrow> mem s' x = mem s x))"
proof (cases "sz0 = 0")
  case True
  then have "my_malloc s sz0 = Some (0, s)" by (simp add: my_malloc_def)
  with inv show ?thesis by simp
next
  case False
  define sz where "sz = ALIGN sz0"
  note al = request_ok_ALIGN[OF rq, folded sz_def]
  from heap_inv_seg[OF inv] obtain lo where sg: "seg (mem s) 0 (blocks s) lo (unat (brk s))"
    and nz: "0 \<notin> set (blocks s)" and hd: "hd (blocks s @ [0]) = head s" by blast
  have lim: "unat (brk s) \<le> unat (brk_max s)" using inv by (simp add: heap_inv_def)
  have top: "unat (brk s) < 2 ^ 64" using unsigned_less[of "brk s", where 'a=nat] by simp
  define b where "b = snd (first_fit (mem s) sz (head s) (blocks s))"
  show ?thesis
  proof (cases "b = 0")
    case True
    note ext = my_malloc_extend[OF inv False, folded sz_def, OF True[unfolded b_def]]
    show ?thesis
    proof (cases "unat (brk s) + 24 + unat sz \<le> unat (brk_max s)")
      case False
      have "unat (BLOCK_SIZE + sz) = 24 + unat sz"
        using al(2) by (subst unat_plus_simple) auto
      with False al(3) have "sbrk s (BLOCK_SIZE + sz) = None" by (intro sbrk_refused) simp_all
      then have "my_malloc s sz0 = Some (0, s)"
        using ext by (simp add: request_space_refused)
      with inv show ?thesis by simp
    next
      case True
      note grant = this
      have nw: "unat sz + 24 < 2 ^ 63" using al(3) by simp
      from request_space_seg[OF sg nz nw grant]
      obtain s1 where rs: "request_space s (last (0 # blocks s)) sz = (brk s, s1)"
        and st: "head s1 = head s" "brk_max s1 = brk_max s"
        and ub: "unat (brk s1) = unat (brk s) + 24 + unat sz"
        and sg1: "seg (mem s1) 0 (blocks s @ [brk s]) lo (unat (brk s1))"
        and nf: "blk_size (mem s1) (brk s) = sz" "blk_free (mem s1) (brk s) = 0"
        and frame: "\<forall>x. x < unat (brk s)
                   \<and> \<not> (blocks s \<noteq> [] \<and> unat (last (blocks s)) + 16 \<le> x
                          \<and> x < unat (last (blocks s)) + 24)
                 \<longrightarrow> mem s1 x = mem s x"
        by blast
      show ?thesis
      proof (cases "brk s = 0")
        case True
        with sg have e: "blocks s = []"
          using seg_nonempty_lt[OF sg] by (cases "blocks s = []") auto
        with hd have h0: "head s = 0" by simp
        have "my_malloc s sz0 = Some (0, s1)" using ext rs True by simp
        moreover have "heap_inv s1"
          using st h0 ub grant by (simp add: heap_inv_def)
        ultimately show ?thesis using st e by simp
      next
        case False
        define s' where "s' = (if head s = 0 then s1\<lparr>head := brk s\<rparr> else s1)"
        have res: "my_malloc s sz0 = Some (brk s + BLOCK_SIZE, s')"
          using ext rs False by (simp add: s'_def)
        have m': "mem s' = mem s1" "brk s' = brk s1" "brk_max s' = brk_max s"
          using st by (simp_all add: s'_def)
        have hd': "hd ((blocks s @ [brk s]) @ [0]) = head s'"
        proof (cases "head s = 0")
          case True
          then have "blocks s = []" by (simp add: blocks_def chain_from.simps[of _ 0])
          with True show ?thesis by (simp add: s'_def)
        next
          case False
          with hd have "blocks s \<noteq> []" by auto
          with hd False st show ?thesis by (cases "blocks s") (auto simp: s'_def)
        qed
        have bl: "heap_inv s' \<and> blocks s' = blocks s @ [brk s]"
        proof (rule heap_invI)
          show "unat (brk s') \<le> unat (brk_max s')" using m' ub grant by simp
          show "seg (mem s') 0 (blocks s @ [brk s]) lo (unat (brk s'))" using sg1 m' by simp
          show "0 \<notin> set (blocks s @ [brk s])" using nz False by auto
          show "hd ((blocks s @ [brk s]) @ [0]) = head s'" by (rule hd')
        qed
        have ur: "unat (brk s + BLOCK_SIZE) = unat (brk s) + 24"
          using grant unsigned_less[of "brk_max s", where 'a=nat]
          by (subst unat_plus_simple) auto
        have fresh: "brk s \<notin> set (blocks s)"
          using seg_bounds[OF sg, of "brk s"] by auto
        have keep: "c \<in> set (blocks s')
                 \<and> (\<forall>x. unat c \<le> x \<and> x < unat c + 24 + unat (blk_size (mem s) c)
                          \<and> \<not> (unat c + 16 \<le> x \<and> x < unat c + 24)
                        \<longrightarrow> mem s' x = mem s x)"
          if c: "c \<in> set (blocks s)" for c
        proof -
          have "mem s1 x = mem s x"
            if x: "unat c \<le> x" "x < unat c + 24 + unat (blk_size (mem s) c)"
              "\<not> (unat c + 16 \<le> x \<and> x < unat c + 24)" for x
          proof -
            from seg_bounds[OF sg c] x have "x < unat (brk s)" by simp
            moreover have "\<not> (unat (last (blocks s)) + 16 \<le> x \<and> x < unat (last (blocks s)) + 24)"
            proof (cases "c = last (blocks s)")
              case True
              with x(3) show ?thesis by simp
            next
              case False
              from c have "last (blocks s) \<in> set (blocks s)" by (cases "blocks s = []") auto
              from extent_not_hdr[OF sg c this _ x(1,2)] False show ?thesis
                by (auto simp: hdr_def)
            qed
            ultimately show ?thesis using frame by blast
          qed
          with c bl m' show ?thesis by simp
        qed
        show ?thesis
          apply (intro exI[of _ "brk s + BLOCK_SIZE"] exI[of _ s'])
          using res bl m' nf ur al(1) fresh keep by (simp add: sz_def)
      qed
    qed
  next
    case False
    note reuse = my_malloc_reuse[OF inv \<open>sz0 \<noteq> 0\<close>, folded sz_def, OF b_def[symmetric] False]
    from first_fit_found[of "mem s" sz "head s" "blocks s"] False
    have bin: "b \<in> set (blocks s)" and bfree: "blk_free (mem s) b \<noteq> 0"
      and bfit: "sz \<le> blk_size (mem s) b" by (auto simp: b_def)
    define m1 where "m1 = split_block (mem s) b sz"
    define s' where "s' = s\<lparr>mem := set_free m1 b 0\<rparr>"
    have res: "my_malloc s sz0 = Some (b + BLOCK_SIZE, s')"
      using reuse by (simp add: s'_def m1_def)
    from split_block_seg[OF sg bin _ al(2) nz] top
    obtain bs' where sg1: "seg m1 0 bs' lo (unat (brk s))"
      and sub: "set (blocks s) \<subseteq> set bs'" and nz': "0 \<notin> set bs'"
      and hd': "hd (bs' @ [0]) = hd (blocks s @ [0])"
      and sz1: "blk_size m1 b = (if unat sz + 32 \<le> unat (blk_size (mem s) b) then sz
                                 else blk_size (mem s) b)"
      and frame: "\<forall>x. x < unat b \<or> unat b + 24 + unat (blk_size (mem s) b) \<le> x \<longrightarrow> m1 x = mem s x"
      unfolding m1_def by auto
    from sub bin have bin': "b \<in> set bs'" by auto
    have bl: "heap_inv s' \<and> blocks s' = bs'"
    proof (rule heap_invI)
      show "unat (brk s') \<le> unat (brk_max s')" using lim by (simp add: s'_def)
      show "seg (mem s') 0 bs' lo (unat (brk s'))"
        using seg_set_free[OF sg1 bin'] by (simp add: s'_def)
      show "0 \<notin> set bs'" by (rule nz')
      show "hd (bs' @ [0]) = head s'" using hd' hd by (simp add: s'_def)
    qed
    have ur: "unat (b + BLOCK_SIZE) = unat b + 24"
      using seg_bounds[OF sg bin] top by (subst unat_plus_simple) auto
    have cap: "unat sz0 \<le> unat (blk_size (mem s') b)"
    proof -
      have "blk_size (mem s') b = blk_size m1 b" by (simp add: s'_def hdr_same)
      moreover have "unat sz \<le> unat (blk_size m1 b)"
        using sz1 bfit by (auto simp: word_le_nat_alt)
      ultimately show ?thesis using al(1) by simp
    qed
    have keep: "c \<in> set (blocks s')
                 \<and> (\<forall>x. unat c \<le> x \<and> x < unat c + 24 + unat (blk_size (mem s) c)
                          \<and> \<not> (unat c + 16 \<le> x \<and> x < unat c + 24)
                        \<longrightarrow> mem s' x = mem s x)"
      if c: "c \<in> set (blocks s)" "blk_free (mem s) c = 0" for c
    proof -
      from c bfree have cb: "c \<noteq> b" by auto
      have "mem s' x = mem s x"
        if x: "unat c \<le> x" "x < unat c + 24 + unat (blk_size (mem s) c)" for x
      proof -
        from seg_disjoint[OF sg c(1) bin cb] x
        have o: "x < unat b \<or> unat b + 24 + unat (blk_size (mem s) b) \<le> x" by auto
        then have "x < unat b \<or> unat b + 24 \<le> x" by auto
        then have "mem s' x = m1 x" by (simp add: s'_def set_outside)
        moreover from o frame have "m1 x = mem s x" by blast
        ultimately show ?thesis by simp
      qed
      with c sub bl show ?thesis by auto
    qed
    show ?thesis
      apply (intro exI[of _ "b + BLOCK_SIZE"] exI[of _ s'])
      using res bl bin' ur cap bfree keep by (simp add: s'_def hdr_same)
  qed
qed

section \<open>Reallocation\<close>

lemma memcpy_outside: "x < unat dst \<or> unat dst + unat n \<le> x \<Longrightarrow> memcpy m dst src n x = m x"
  by (auto simp: memcpy_def)

lemma memcpy_inside: "i < unat n \<Longrightarrow> memcpy m dst src n (unat dst + i) = m (unat src + i)"
  by (simp add: memcpy_def)

text \<open>Copying into the payload of a block of the chain touches no header.\<close>

lemma memcpy_payload_hdr:
  assumes sg: "seg m t bs lo hi" and q: "Q \<in> set bs" and uq: "unat q = unat Q + 24"
    and n: "unat n \<le> unat (blk_size m Q)" and c: "c \<in> set bs"
    and x: "unat c \<le> x" "x < unat c + 24"
  shows "memcpy m q src n x = m x"
proof (rule memcpy_outside)
  show "x < unat q \<or> unat q + unat n \<le> x"
  proof (cases "c = Q")
    case True
    with x uq show ?thesis by simp
  next
    case False
    from seg_disjoint[OF sg q c] False x uq n show ?thesis by auto
  qed
qed

lemma memcpy_payload_seg:
  assumes sg: "seg m t bs lo hi" and q: "Q \<in> set bs" and uq: "unat q = unat Q + 24"
    and n: "unat n \<le> unat (blk_size m Q)"
  shows "seg (memcpy m q src n) t bs lo hi"
    and "\<And>c. c \<in> set bs \<Longrightarrow> blk_size (memcpy m q src n) c = blk_size m c
                          \<and> blk_free (memcpy m q src n) c = blk_free m c"
proof -
  have f: "blk_size (memcpy m q src n) c = blk_size m c
           \<and> blk_free (memcpy m q src n) c = blk_free m c
           \<and> blk_next (memcpy m q src n) c = blk_next m c" if c: "c \<in> set bs" for c
    using hdr_cong[of c "memcpy m q src n" m] memcpy_payload_hdr[OF sg q uq n c] by simp
  show "seg (memcpy m q src n) t bs lo hi"
    using sg by (rule seg_fields) (simp add: f)
  show "\<And>c. c \<in> set bs \<Longrightarrow> blk_size (memcpy m q src n) c = blk_size m c
                          \<and> blk_free (memcpy m q src n) c = blk_free m c"
    using f by simp
qed

lemma live_ptr:
  assumes "heap_inv s" and "live s p"
  shows "p \<noteq> 0" and "get_block_ptr p \<in> set (blocks s)"
    and "blk_free (mem s) (get_block_ptr p) = 0" and "unat p = unat (get_block_ptr p) + 24"
proof -
  from assms(2) show p: "p \<noteq> 0" and b: "get_block_ptr p \<in> set (blocks s)"
    and "blk_free (mem s) (get_block_ptr p) = 0" by (simp_all add: live_def)
  from heap_inv_seg[OF assms(1)] obtain lo where sg: "seg (mem s) 0 (blocks s) lo (unat (brk s))"
    by blast
  have "unat (brk s) < 2 ^ 64" using unsigned_less[of "brk s", where 'a=nat] by simp
  with seg_bounds[OF sg b] have "unat (get_block_ptr p) + unat BLOCK_SIZE < 2 ^ 64" by simp
  then have "unat (get_block_ptr p + BLOCK_SIZE) = unat (get_block_ptr p) + 24"
    by (subst unat_plus_simple) auto
  then show "unat p = unat (get_block_ptr p) + 24" by (simp add: get_block_ptr_def)
qed

text \<open>
  The growing path of \<^verbatim>\<open>my_realloc\<close> in a well-formed heap, for a request of at most
  \<open>2^63 - 40\<close> bytes.
\<close>

lemma my_realloc_grow:
  assumes inv: "heap_inv s" and lv: "live s p" and rq: "request_ok sz"
    and grow: "\<not> sz \<le> blk_size (mem s) (get_block_ptr p)"
  shows "\<exists>q s'. my_realloc s p sz = Some (q, s') \<and> heap_inv s' \<and> brk_max s' = brk_max s
           \<and> (q \<noteq> 0 \<longrightarrow>
                 (\<forall>i<unat (blk_size (mem s) (get_block_ptr p)). mem s' (unat q + i) = mem s (unat p + i))
                 \<and> \<not> live s' p \<and> live s' q \<and> no_adjacent_free s'
                 \<and> unat sz \<le> unat (blk_size (mem s') (get_block_ptr q)))"
proof -
  define P where "P = get_block_ptr p"
  note lp = live_ptr[OF inv lv, folded P_def]
  from grow have sz0: "sz \<noteq> 0" by auto
  from my_malloc_heap[OF inv rq]
  obtain q s1 where mal: "my_malloc s sz = Some (q, s1)" and inv1: "heap_inv s1"
    and bm1: "brk_max s1 = brk_max s"
    and new: "q \<noteq> 0 \<longrightarrow>
                 get_block_ptr q \<in> set (blocks s1) \<and> unat q = unat (get_block_ptr q) + 24
                 \<and> blk_free (mem s1) (get_block_ptr q) = 0
                 \<and> unat sz \<le> unat (blk_size (mem s1) (get_block_ptr q))
                 \<and> \<not> (get_block_ptr q \<in> set (blocks s) \<and> blk_free (mem s) (get_block_ptr q) = 0)"
    and keep: "\<forall>c\<in>set (blocks s). blk_free (mem s) c = 0 \<longrightarrow>
                 c \<in> set (blocks s1)
                 \<and> (\<forall>x. unat c \<le> x \<and> x < unat c + 24 + unat (blk_size (mem s) c)
                          \<and> \<not> (unat c + 16 \<le> x \<and> x < unat c + 24)
                        \<longrightarrow> mem s1 x = mem s x)"
    by blast
  show ?thesis
  proof (cases "q = 0")
    case True
    have "my_realloc s p sz = Some (0, s1)"
      using lp(1) sz0 grow mal True by (simp add: my_realloc_def Let_def)
    with inv1 bm1 True show ?thesis by simp
  next
    case False
    define Q where "Q = get_block_ptr q"
    from new False have Qin: "Q \<in> set (blocks s1)" and uq: "unat q = unat Q + 24"
      and Qused: "blk_free (mem s1) Q = 0" and cap: "unat sz \<le> unat (blk_size (mem s1) Q)"
      and fresh: "\<not> (Q \<in> set (blocks s) \<and> blk_free (mem s) Q = 0)"
      by (simp_all add: Q_def)
    from keep lp(2,3) have Pin: "P \<in> set (blocks s1)"
      and Psame: "\<And>x. unat P \<le> x \<Longrightarrow> x < unat P + 24 + unat (blk_size (mem s) P)
                     \<Longrightarrow> \<not> (unat P + 16 \<le> x \<and> x < unat P + 24) \<Longrightarrow> mem s1 x = mem s x"
      by auto
    have "\<And>x. unat P \<le> x \<Longrightarrow> x < unat P + 16 \<Longrightarrow> mem s1 x = mem s x"
      by (rule Psame) auto
    from hdr_cong_size_free[of P "mem s1" "mem s", OF this]
    have Pf: "blk_size (mem s1) P = blk_size (mem s) P" "blk_free (mem s1) P = 0"
      using lp(3) by auto
    from fresh lp(2,3) have QP: "Q \<noteq> P" by auto
    define n where "n = blk_size (mem s) P"
    from grow have nlt: "unat n < unat sz" by (simp add: n_def P_def word_le_nat_alt)
    with cap have ncap: "unat n \<le> unat (blk_size (mem s1) Q)" by simp
    define s2 where "s2 = s1\<lparr>mem := memcpy (mem s1) q p n\<rparr>"
    from heap_inv_seg[OF inv1] obtain lo where sg1: "seg (mem s1) 0 (blocks s1) lo (unat (brk s1))"
      and nz1: "0 \<notin> set (blocks s1)" and hd1: "hd (blocks s1 @ [0]) = head s1" by blast
    note mc = memcpy_payload_seg[OF sg1 Qin uq ncap, where src = p]
    have bl2: "heap_inv s2 \<and> blocks s2 = blocks s1"
    proof (rule heap_invI)
      show "unat (brk s2) \<le> unat (brk_max s2)" using inv1 by (simp add: s2_def heap_inv_def)
      show "seg (mem s2) 0 (blocks s1) lo (unat (brk s2))" using mc(1) by (simp add: s2_def)
      show "0 \<notin> set (blocks s1)" by (rule nz1)
      show "hd (blocks s1 @ [0]) = head s2" using hd1 by (simp add: s2_def)
    qed
    have Q2: "blk_free (mem s2) Q = 0" "blk_size (mem s2) Q = blk_size (mem s1) Q"
      using mc(2)[OF Qin] Qused by (simp_all add: s2_def)
    from my_free_heap[of s2 p] bl2 lp(1) Pin
    obtain s3 where fr: "my_free s2 p = Some s3" and inv3: "heap_inv s3"
      and bm3: "brk_max s3 = brk_max s2" and noadj: "no_adjacent_free s3"
      and Pfree: "P \<in> set (blocks s3) \<longrightarrow> blk_free (mem s3) P = 1"
      and keep3: "\<forall>c\<in>set (blocks s2). c \<noteq> P \<and> blk_free (mem s2) c = 0 \<longrightarrow>
                 c \<in> set (blocks s3)
                 \<and> (\<forall>x. unat c \<le> x \<and> x < unat c + 24 + unat (blk_size (mem s2) c)
                        \<longrightarrow> mem s3 x = mem s2 x)"
      unfolding P_def by auto
    from keep3 bl2 Qin QP Q2 have Q3in: "Q \<in> set (blocks s3)"
      and Q3same: "\<And>x. unat Q \<le> x \<Longrightarrow> x < unat Q + 24 + unat (blk_size (mem s1) Q)
                     \<Longrightarrow> mem s3 x = mem s2 x" by auto
    have "\<And>x. unat Q \<le> x \<Longrightarrow> x < unat Q + 24 \<Longrightarrow> mem s3 x = mem s2 x"
      by (rule Q3same) auto
    from hdr_cong[of Q "mem s3" "mem s2", OF this] Q2
    have Q3: "blk_free (mem s3) Q = 0" "blk_size (mem s3) Q = blk_size (mem s1) Q" by auto
    have res: "my_realloc s p sz = Some (q, s3)"
      using lp(1) sz0 grow mal False fr Pf(1)
      by (simp add: my_realloc_def Let_def s2_def n_def P_def)
    have content: "mem s3 (unat q + i) = mem s (unat p + i)" if i: "i < unat n" for i
    proof -
      have "mem s3 (unat q + i) = mem s2 (unat q + i)"
        using i ncap uq by (intro Q3same) auto
      also have "\<dots> = mem s1 (unat p + i)"
        using i by (simp add: s2_def memcpy_inside)
      also have "\<dots> = mem s (unat p + i)"
        using i lp(4) by (intro Psame) (auto simp: n_def)
      finally show ?thesis .
    qed
    have "\<not> live s3 p" using Pfree by (auto simp: live_def P_def)
    moreover have "live s3 q" using False Q3in Q3(1) by (simp add: live_def Q_def)
    moreover have "unat sz \<le> unat (blk_size (mem s3) (get_block_ptr q))"
      using Q3(2) cap by (simp add: Q_def)
    moreover have "brk_max s3 = brk_max s" using bm3 bm1 by (simp add: s2_def)
    ultimately show ?thesis
      using res inv3 content noadj by (auto simp: n_def P_def)
  qed
qed

section \<open>The ledger invariant\<close>

text \<open>
  The ledger invariant as the spec states it: the chain from \<^verbatim>\<open>head\<close> is in strictly
  increasing address order (\<open>blocks\<close> follows the links while the addresses increase, so
  the chain is increasing when that walk ends at a \<^verbatim>\<open>NULL\<close> link), and each block
  begins its predecessor's header size plus size bytes after the predecessor.
\<close>

fun adjacent :: "memory \<Rightarrow> addr list \<Rightarrow> bool" where
  "adjacent m (b # c # bs) =
     (unat b < unat c \<and> unat c = unat b + unat BLOCK_SIZE + unat (blk_size m b)
      \<and> adjacent m (c # bs))"
| "adjacent m bs = True"

definition ledger_inv :: "heap_state \<Rightarrow> bool" where
  "ledger_inv s =
     ((blocks s = [] \<or> blk_next (mem s) (last (blocks s)) = 0) \<and> adjacent (mem s) (blocks s))"

datatype api_call = Malloc addr | Free addr | Realloc addr addr

fun api :: "heap_state \<Rightarrow> api_call \<Rightarrow> (addr \<times> heap_state) option" where
  "api s (Malloc sz) = my_malloc s sz"
| "api s (Free p) = (case my_free s p of None \<Rightarrow> None | Some s' \<Rightarrow> Some (0, s'))"
| "api s (Realloc p sz) = my_realloc s p sz"

text \<open>
  The caller's obligations: a pointer passed to \<^verbatim>\<open>my_free\<close> or \<^verbatim>\<open>my_realloc\<close> is
  \<^verbatim>\<open>NULL\<close> or live, and a requested size is at most \<open>2^63 - 40\<close> (\<open>request_ok\<close>).
\<close>

fun call_ok :: "heap_state \<Rightarrow> api_call \<Rightarrow> bool" where
  "call_ok s (Malloc sz) = request_ok sz"
| "call_ok s (Free p) = (p = 0 \<or> live s p)"
| "call_ok s (Realloc p sz) = ((p = 0 \<or> live s p) \<and> request_ok sz)"

lemma seg_adjacent: "seg m t bs lo hi \<Longrightarrow> adjacent m bs"
proof (induction bs arbitrary: lo)
  case Nil
  then show ?case by simp
next
  case (Cons b bs)
  then show ?case by (cases bs) auto
qed

lemma seg_last_next: "seg m t bs lo hi \<Longrightarrow> bs \<noteq> [] \<Longrightarrow> blk_next m (last bs) = t"
proof (induction bs arbitrary: lo)
  case Nil
  then show ?case by simp
next
  case (Cons b bs)
  then show ?case by (cases "bs = []") auto
qed

lemma heap_inv_ledger: "heap_inv s \<Longrightarrow> ledger_inv s"
proof -
  assume "heap_inv s"
  from heap_inv_seg[OF this] obtain lo where sg: "seg (mem s) 0 (blocks s) lo (unat (brk s))"
    by blast
  from seg_adjacent[OF sg] seg_last_next[OF sg] show ?thesis
    by (auto simp: ledger_inv_def)
qed

lemma my_realloc_shrink:
  assumes inv: "heap_inv s" and lv: "live s p" and rq: "request_ok sz" and sz0: "sz \<noteq> 0"
    and fit: "sz \<le> blk_size (mem s) (get_block_ptr p)"
  shows "\<exists>s'. my_realloc s p sz = Some (p, s') \<and> heap_inv s'"
proof -
  define P where "P = get_block_ptr p"
  note lp = live_ptr[OF inv lv, folded P_def]
  from heap_inv_seg[OF inv] obtain lo where sg: "seg (mem s) 0 (blocks s) lo (unat (brk s))"
    and nz: "0 \<notin> set (blocks s)" and hd: "hd (blocks s @ [0]) = head s" by blast
  have top: "unat (brk s) \<le> 2 ^ 64" using unsigned_less[of "brk s", where 'a=nat] by simp
  from rq have nw: "unat sz + 32 < 2 ^ 64" by (simp add: request_ok_def BLOCK_SIZE_def ALIGNMENT_def)
  from split_block_seg[OF sg lp(2) top nw nz]
  obtain bs' where sg': "seg (split_block (mem s) P sz) 0 bs' lo (unat (brk s))"
    and nz': "0 \<notin> set bs'" and hd': "hd (bs' @ [0]) = hd (blocks s @ [0])" by blast
  define s' where "s' = s\<lparr>mem := split_block (mem s) P sz\<rparr>"
  have "my_realloc s p sz = Some (p, s')"
    using lp(1) sz0 fit by (simp add: my_realloc_def Let_def s'_def P_def)
  moreover have "heap_inv s' \<and> blocks s' = bs'"
  proof (rule heap_invI)
    show "unat (brk s') \<le> unat (brk_max s')" using inv by (simp add: s'_def heap_inv_def)
    show "seg (mem s') 0 bs' lo (unat (brk s'))" using sg' by (simp add: s'_def)
    show "0 \<notin> set bs'" by (rule nz')
    show "hd (bs' @ [0]) = head s'" using hd' hd by (simp add: s'_def)
  qed
  ultimately show ?thesis by blast
qed

lemma api_heap_inv:
  assumes inv: "heap_inv s" and ok: "call_ok s c"
  shows "\<exists>r s'. api s c = Some (r, s') \<and> heap_inv s'"
proof (cases c)
  case (Malloc sz)
  with ok my_malloc_heap[OF inv, of sz] show ?thesis by auto
next
  case (Free p)
  show ?thesis
  proof (cases "p = 0")
    case True
    with Free inv show ?thesis by (simp add: my_free_def)
  next
    case False
    with ok Free have "live s p" by simp
    then have "get_block_ptr p \<in> set (blocks s)" by (simp add: live_def)
    from my_free_heap[OF inv False this] Free show ?thesis by auto
  qed
next
  case (Realloc p sz)
  with ok have rq: "request_ok sz" and pl: "p = 0 \<or> live s p" by auto
  show ?thesis
  proof (cases "p = 0")
    case True
    then have "my_realloc s p sz = my_malloc s sz" by (simp add: my_realloc_def)
    with my_malloc_heap[OF inv rq] Realloc show ?thesis by auto
  next
    case False
    with pl have lv: "live s p" by simp
    then have pin: "get_block_ptr p \<in> set (blocks s)" by (simp add: live_def)
    show ?thesis
    proof (cases "sz = 0")
      case True
      from my_free_heap[OF inv False pin] obtain s' where "my_free s p = Some s'" "heap_inv s'"
        by blast
      with True False Realloc show ?thesis by (simp add: my_realloc_def)
    next
      case False
      show ?thesis
      proof (cases "sz \<le> blk_size (mem s) (get_block_ptr p)")
        case True
        from my_realloc_shrink[OF inv lv rq False True] Realloc show ?thesis by auto
      next
        case False
        from my_realloc_grow[OF inv lv rq False] Realloc show ?thesis by auto
      qed
    qed
  qed
qed

text \<open>
  C1, as amended. In a well-formed heap (the ledger invariant, with the program break
  at the end of the last block), every call of the public API whose pointer is \<^verbatim>\<open>NULL\<close>
  or live and whose requested size is at most \<open>2^63 - 40\<close> returns and leaves a
  well-formed heap; in particular the ledger invariant holds after it.
\<close>

theorem api_preserves_ledger:
  assumes "heap_inv s" and "call_ok s c"
  shows "\<exists>r s'. api s c = Some (r, s') \<and> heap_inv s' \<and> ledger_inv s'"
  using api_heap_inv[OF assms] heap_inv_ledger by blast

theorem api_preserves_ledger_witness:
  "heap_inv example_heap \<and> call_ok example_heap (Realloc 4184 200)
   \<and> (\<exists>r s'. api example_heap (Realloc 4184 200) = Some (r, s') \<and> heap_inv s' \<and> ledger_inv s')"
proof -
  have "call_ok example_heap (Realloc 4184 200)"
    using example_heap_live by (simp add: request_ok_def)
  with api_preserves_ledger[of example_heap "Realloc 4184 200"] example_heap_inv
  show ?thesis by simp
qed

text \<open>
  The claim as stated fails where header size plus aligned size wraps around. From the
  empty heap, \<^verbatim>\<open>my_malloc(2^64 - 8)\<close> asks \<^verbatim>\<open>sbrk\<close> for \<open>24 + (2^64 - 8) = 16\<close> bytes and
  records a block of size \<open>2^64 - 8\<close>; the next \<^verbatim>\<open>my_malloc(8)\<close> puts its header at the
  break, 16 bytes behind the first header, and its size field overwrites the first
  block's \<^verbatim>\<open>next\<close> link: the chain now leads from 4096 to address 8.
\<close>

definition empty_heap :: heap_state where
  "empty_heap = \<lparr>mem = (\<lambda>_. 0), head = 0, brk = 4096, brk_max = 8192, brk_min = 4096\<rparr>"

definition wrapped_heap1 :: heap_state where
  "wrapped_heap1 =
     \<lparr>mem = set_next (set_free (set_size (\<lambda>_. 0) 4096 (- 8)) 4096 0) 4096 0,
      head = 4096, brk = 4112, brk_max = 8192, brk_min = 4096\<rparr>"

definition wrapped_heap2 :: heap_state where
  "wrapped_heap2 =
     \<lparr>mem = set_next (set_free (set_size (set_next (mem wrapped_heap1) 4096 4112) 4112 8) 4112 0)
              4112 0,
      head = 4096, brk = 4144, brk_max = 8192, brk_min = 4096\<rparr>"

lemma ALIGN_minus_8: "ALIGN (- 8) = - 8"
  by (simp add: ALIGN_def ALIGNMENT_def)

lemma ALIGN_8: "ALIGN 8 = 8"
  by (simp add: ALIGN_def ALIGNMENT_def)

lemma wrapped_malloc1: "my_malloc empty_heap (- 8) = Some (4120, wrapped_heap1)"
  by (simp add: my_malloc_def ALIGN_minus_8 request_space_def sbrk_def Let_def BLOCK_SIZE_def
      empty_heap_def wrapped_heap1_def)

lemma wrapped_heap1_fields:
  "blk_free (mem wrapped_heap1) 4096 = 0" "blk_next (mem wrapped_heap1) 4096 = 0"
  by (simp_all add: wrapped_heap1_def hdr_same)

lemma wrapped_first_fit: "find_free_block_first_fit wrapped_heap1 4096 8 = Some (4096, 0)"
proof -
  have "first_fit_loop (mem wrapped_heap1) 8 4096 0 = Some (4096, 0)"
    by (subst first_fit_loop.simps) simp
  then have "first_fit_loop (mem wrapped_heap1) 8 4096 4096 = Some (4096, 0)"
    by (subst first_fit_loop.simps) (simp add: wrapped_heap1_fields)
  then show ?thesis by (simp add: find_free_block_first_fit_def wrapped_heap1_def)
qed

lemma wrapped_malloc2: "my_malloc wrapped_heap1 8 = Some (4136, wrapped_heap2)"
proof -
  have h: "head wrapped_heap1 = 4096" "brk wrapped_heap1 = 4112" "brk_max wrapped_heap1 = 8192"
    "brk_min wrapped_heap1 = 4096"
    by (simp_all add: wrapped_heap1_def)
  have "request_space wrapped_heap1 4096 8 = (4112, wrapped_heap2)"
    by (simp add: request_space_def sbrk_def Let_def BLOCK_SIZE_def h wrapped_heap2_def)
  then show ?thesis
    by (simp add: my_malloc_def ALIGN_8 wrapped_first_fit h Let_def BLOCK_SIZE_def)
qed

lemma wrapped_heap2_next: "blk_next (mem wrapped_heap2) 4096 = 8"
proof -
  have "rd64 (wr64 (wr32 (wr64 (wr64 (mem wrapped_heap1) 4112 4112) 4112 8) 4120 0) 4128 0) 4112 = 8"
    by (simp add: rd64_wr64_other rd64_wr32_other rd64_wr64_same)
  then show ?thesis
    by (simp add: wrapped_heap2_def blk_next_def set_next_def set_free_def set_size_def)
qed

theorem api_ledger_counterexample:
  "ledger_inv empty_heap
   \<and> my_malloc empty_heap (- 8) = Some (4120, wrapped_heap1) \<and> ledger_inv wrapped_heap1
   \<and> my_malloc wrapped_heap1 8 = Some (4136, wrapped_heap2) \<and> \<not> ledger_inv wrapped_heap2"
proof -
  have "blocks empty_heap = []"
    by (simp add: blocks_def empty_heap_def chain_from.simps[of _ 0])
  then have "ledger_inv empty_heap" by (simp add: ledger_inv_def)
  moreover have "blocks wrapped_heap1 = [4096]"
    using wrapped_heap1_fields(2)
    by (simp add: blocks_def chain_from.simps[of _ 4096] wrapped_heap1_def)
  then have "ledger_inv wrapped_heap1"
    using wrapped_heap1_fields(2) by (simp add: ledger_inv_def)
  moreover have "blocks wrapped_heap2 = [4096]"
    using wrapped_heap2_next
    by (simp add: blocks_def chain_from.simps[of _ 4096] wrapped_heap2_def)
  then have "\<not> ledger_inv wrapped_heap2"
    using wrapped_heap2_next by (simp add: ledger_inv_def)
  ultimately show ?thesis using wrapped_malloc1 wrapped_malloc2 by simp
qed

section \<open>Denied arena extension\<close>

text \<open>
  C7. \<^verbatim>\<open>my_malloc\<close> calls \<^verbatim>\<open>sbrk\<close> (through \<^verbatim>\<open>request_space\<close>, with the header size plus the
  aligned size) exactly when the size is not 0 and the heap is empty or the first-fit
  search returns no block. In every state, if that call is refused, \<^verbatim>\<open>my_malloc\<close> returns
  \<^verbatim>\<open>NULL\<close> and the state it leaves is the state it found: head, break and every byte
  of the memory.
\<close>

theorem my_malloc_denied:
  assumes "sz \<noteq> 0"
    and "head s = 0 \<or> (\<exists>l. find_free_block_first_fit s (head s) (ALIGN sz) = Some (l, 0))"
    and "sbrk s (BLOCK_SIZE + ALIGN sz) = None"
  shows "my_malloc s sz = Some (0, s)"
proof (cases "head s = 0")
  case True
  with assms(1,3) show ?thesis
    by (simp add: my_malloc_def Let_def request_space_refused)
next
  case False
  with assms(2) obtain l where "find_free_block_first_fit s (head s) (ALIGN sz) = Some (l, 0)"
    by blast
  with False assms(1,3) show ?thesis
    by (simp add: my_malloc_def Let_def request_space_refused)
qed

lemma example_first_fit_none:
  "find_free_block_first_fit example_heap (head example_heap) 8000 = Some (4312, 0)"
proof -
  from heap_inv_seg[of example_heap] example_heap_inv
  obtain lo where sg: "seg (mem example_heap) 0 [4096, 4160, 4264, 4312] lo (unat (brk example_heap))"
    by auto
  have "first_fit_loop (mem example_heap) 8000 (head example_heap) (hd ([4096, 4160, 4264, 4312] @ [0]))
          = Some (first_fit (mem example_heap) 8000 (head example_heap) [4096, 4160, 4264, 4312])"
    by (rule first_fit_loop_seg[OF sg]) simp
  then show ?thesis
    by (simp add: find_free_block_first_fit_def example_heap_fields)
       (simp add: example_heap_def)
qed

lemma ALIGN_8000: "ALIGN 8000 = 8000"
  by (simp add: ALIGN_def ALIGNMENT_def)

lemma example_sbrk_refused: "sbrk example_heap (BLOCK_SIZE + 8000) = None"
  by (simp add: sbrk_def BLOCK_SIZE_def example_heap_def)

theorem my_malloc_denied_witness:
  "(8000 :: addr) \<noteq> 0
   \<and> find_free_block_first_fit example_heap (head example_heap) (ALIGN 8000) = Some (4312, 0)
   \<and> sbrk example_heap (BLOCK_SIZE + ALIGN 8000) = None
   \<and> my_malloc example_heap 8000 = Some (0, example_heap)"
  using my_malloc_denied[of 8000 example_heap] example_first_fit_none example_sbrk_refused
  by (simp add: ALIGN_8000)

text \<open>
  C8. For a non-null pointer whose block's capacity is smaller than the requested size,
  \<^verbatim>\<open>my_realloc\<close> allocates with \<^verbatim>\<open>my_malloc\<close>. In every state, if the arena extension that
  allocation needs is refused, \<^verbatim>\<open>my_realloc\<close> returns \<^verbatim>\<open>NULL\<close> and leaves the state it
  found: the original block is still in the chain and marked used, with its size and
  its payload.
\<close>

theorem my_realloc_denied:
  assumes "p \<noteq> 0" and "\<not> sz \<le> blk_size (mem s) (get_block_ptr p)"
    and "head s = 0 \<or> (\<exists>l. find_free_block_first_fit s (head s) (ALIGN sz) = Some (l, 0))"
    and "sbrk s (BLOCK_SIZE + ALIGN sz) = None"
  shows "my_realloc s p sz = Some (0, s)"
proof -
  from assms(2) have "sz \<noteq> 0" by auto
  then have "my_malloc s sz = Some (0, s)"
    using assms(3,4)
  proof (cases "head s = 0")
    case True
    with \<open>sz \<noteq> 0\<close> assms(4) show ?thesis
      by (simp add: my_malloc_def Let_def request_space_refused)
  next
    case False
    with assms(3) obtain l where "find_free_block_first_fit s (head s) (ALIGN sz) = Some (l, 0)"
      by blast
    with False \<open>sz \<noteq> 0\<close> assms(4) show ?thesis
      by (simp add: my_malloc_def Let_def request_space_refused)
  qed
  with assms(1,2) \<open>sz \<noteq> 0\<close> show ?thesis
    by (simp add: my_realloc_def Let_def)
qed

theorem my_realloc_denied_witness:
  "(4184 :: addr) \<noteq> 0 \<and> live example_heap 4184
   \<and> \<not> 8000 \<le> blk_size (mem example_heap) (get_block_ptr 4184)
   \<and> find_free_block_first_fit example_heap (head example_heap) (ALIGN 8000) = Some (4312, 0)
   \<and> sbrk example_heap (BLOCK_SIZE + ALIGN 8000) = None
   \<and> my_realloc example_heap 4184 8000 = Some (0, example_heap)"
proof -
  have "\<not> 8000 \<le> blk_size (mem example_heap) (get_block_ptr 4184)"
    by (simp add: get_block_ptr_def BLOCK_SIZE_def example_heap_fields)
  with my_realloc_denied[of 4184 8000 example_heap] example_first_fit_none example_sbrk_refused
    example_heap_live
  show ?thesis by (simp add: ALIGN_8000)
qed

section \<open>Alignment of sizes and addresses\<close>

text \<open>Every block of the chain has a size that is a multiple of the alignment.\<close>

definition sizes_aligned :: "heap_state \<Rightarrow> bool" where
  "sizes_aligned s = list_all (\<lambda>b. unat (blk_size (mem s) b) mod unat ALIGNMENT = 0) (blocks s)"

text \<open>
  The states of the run \<^verbatim>\<open>p = my_malloc(64); my_realloc(p, 1); my_malloc(8)\<close> from the empty
  heap. \<^verbatim>\<open>my_realloc\<close> passes the size 1 to \<^verbatim>\<open>split_block\<close> as it is: \<^verbatim>\<open>my_malloc\<close> aligns
  its size first, \<^verbatim>\<open>my_realloc\<close> does not.
\<close>

definition shrink_heap1 :: heap_state where
  "shrink_heap1 =
     \<lparr>mem = set_next (set_free (set_size (\<lambda>_. 0) 4096 64) 4096 0) 4096 0,
      head = 4096, brk = 4184, brk_max = 8192, brk_min = 4096\<rparr>"

definition shrink_heap2 :: heap_state where
  "shrink_heap2 = shrink_heap1\<lparr>mem := split_block (mem shrink_heap1) 4096 1\<rparr>"

lemma ALIGN_64: "ALIGN 64 = 64"
  by (simp add: ALIGN_def ALIGNMENT_def)

lemma shrink_malloc1: "my_malloc empty_heap 64 = Some (4120, shrink_heap1)"
  by (simp add: my_malloc_def ALIGN_64 request_space_def sbrk_def Let_def BLOCK_SIZE_def
      empty_heap_def shrink_heap1_def)

lemma shrink_heap1_fields:
  "blk_size (mem shrink_heap1) 4096 = 64" "blk_free (mem shrink_heap1) 4096 = 0"
  "blk_next (mem shrink_heap1) 4096 = 0"
  by (simp_all add: shrink_heap1_def hdr_same)

lemma shrink_heap1_blocks: "heap_inv shrink_heap1 \<and> blocks shrink_heap1 = [4096]"
proof (rule heap_invI)
  show "unat (brk shrink_heap1) \<le> unat (brk_max shrink_heap1)" by (simp add: shrink_heap1_def)
  show "seg (mem shrink_heap1) 0 [4096] 4096 (unat (brk shrink_heap1))"
    by (simp add: shrink_heap1_fields) (simp add: shrink_heap1_def)
  show "0 \<notin> set [4096 :: addr]" by simp
  show "hd ([4096] @ [0]) = head shrink_heap1" by (simp add: shrink_heap1_def)
qed

lemma shrink_realloc: "my_realloc shrink_heap1 4120 1 = Some (4120, shrink_heap2)"
  by (simp add: my_realloc_def get_block_ptr_def BLOCK_SIZE_def shrink_heap1_fields Let_def
      shrink_heap2_def)

lemma shrink_heap2_fields:
  "blk_size (mem shrink_heap2) 4096 = 1" "blk_free (mem shrink_heap2) 4096 = 0"
  "blk_next (mem shrink_heap2) 4096 = 4121"
  "blk_size (mem shrink_heap2) 4121 = 39" "blk_free (mem shrink_heap2) 4121 = 1"
  "blk_next (mem shrink_heap2) 4121 = 0"
proof -
  have g: "unat (1 :: addr) + 32 \<le> unat (blk_size (mem shrink_heap1) 4096)"
    and fit: "unat (4096 :: addr) + 24 + unat (blk_size (mem shrink_heap1) 4096) \<le> 2 ^ 64"
    by (simp_all add: shrink_heap1_fields)
  have nb: "(4096 :: addr) + BLOCK_SIZE + 1 = 4121" by (simp add: BLOCK_SIZE_def)
  note f = split_block_fields[OF g fit, unfolded nb]
  show "blk_size (mem shrink_heap2) 4096 = 1" "blk_free (mem shrink_heap2) 4096 = 0"
    "blk_next (mem shrink_heap2) 4096 = 4121" "blk_free (mem shrink_heap2) 4121 = 1"
    "blk_next (mem shrink_heap2) 4121 = 0"
    using f(2,3,4,7,8) by (simp_all add: shrink_heap2_def shrink_heap1_fields)
  show "blk_size (mem shrink_heap2) 4121 = 39"
    using f(6) by (simp add: shrink_heap2_def shrink_heap1_fields BLOCK_SIZE_def)
qed

lemma shrink_heap2_blocks: "heap_inv shrink_heap2 \<and> blocks shrink_heap2 = [4096, 4121]"
proof (rule heap_invI)
  show "unat (brk shrink_heap2) \<le> unat (brk_max shrink_heap2)"
    by (simp add: shrink_heap2_def shrink_heap1_def)
  show "seg (mem shrink_heap2) 0 [4096, 4121] 4096 (unat (brk shrink_heap2))"
    by (simp add: shrink_heap2_fields) (simp add: shrink_heap2_def shrink_heap1_def)
  show "0 \<notin> set [4096, 4121 :: addr]" by simp
  show "hd ([4096, 4121] @ [0]) = head shrink_heap2"
    by (simp add: shrink_heap2_def shrink_heap1_def)
qed

text \<open>
  C3, at the failing input: after \<^verbatim>\<open>my_malloc(64)\<close> the one block has size 64; after
  \<^verbatim>\<open>my_realloc(p, 1)\<close> the chain holds a block of size 1 and a block of size 39.
\<close>

theorem realloc_shrink_unaligned_sizes:
  "my_malloc empty_heap 64 = Some (4120, shrink_heap1) \<and> sizes_aligned shrink_heap1
   \<and> my_realloc shrink_heap1 4120 1 = Some (4120, shrink_heap2)
   \<and> blocks shrink_heap2 = [4096, 4121]
   \<and> blk_size (mem shrink_heap2) 4096 = 1 \<and> blk_size (mem shrink_heap2) 4121 = 39
   \<and> \<not> sizes_aligned shrink_heap2"
  using shrink_malloc1 shrink_realloc
  by (simp add: sizes_aligned_def shrink_heap1_blocks shrink_heap2_blocks shrink_heap1_fields
      shrink_heap2_fields)

text \<open>
  C4, at the failing input: in the state the same run reaches, \<^verbatim>\<open>my_malloc(8)\<close> finds the
  free block at 4121 and returns its payload address 4145, which is 1 modulo 8.
\<close>

theorem malloc_unaligned_address:
  "my_malloc empty_heap 64 = Some (4120, shrink_heap1)
   \<and> my_realloc shrink_heap1 4120 1 = Some (4120, shrink_heap2)
   \<and> (\<exists>s'. my_malloc shrink_heap2 8 = Some (4145, s'))
   \<and> unat (4145 :: addr) mod unat ALIGNMENT = 1"
proof -
  have "first_fit (mem shrink_heap2) (ALIGN 8) (head shrink_heap2) (blocks shrink_heap2) = (4096, 4121)"
    by (simp add: shrink_heap2_blocks shrink_heap2_fields ALIGN_8)
  then have "snd (first_fit (mem shrink_heap2) (ALIGN 8) (head shrink_heap2) (blocks shrink_heap2)) = 4121"
    by simp
  from my_malloc_reuse[OF _ _ this] shrink_heap2_blocks
  have "\<exists>s'. my_malloc shrink_heap2 8 = Some (4121 + BLOCK_SIZE, s')" by simp
  moreover have "(4121 :: addr) + BLOCK_SIZE = 4145" by (simp add: BLOCK_SIZE_def)
  ultimately show ?thesis using shrink_malloc1 shrink_realloc by simp
qed

section \<open>The best-fit scan\<close>

text \<open>What the best-fit scan returns on a chain, read off the list of its blocks.\<close>

fun best_fit :: "memory \<Rightarrow> addr \<Rightarrow> addr \<Rightarrow> addr \<Rightarrow> addr \<Rightarrow> addr list \<Rightarrow> addr \<times> addr" where
  "best_fit m sz l best bsz [] = (l, best)"
| "best_fit m sz l best bsz (b # bs) =
     (if blk_free m b \<noteq> 0 \<and> sz \<le> blk_size m b \<and> blk_size m b < bsz
      then best_fit m sz b b (blk_size m b) bs
      else best_fit m sz (if best = 0 \<or> b = best then b else l) best bsz bs)"

lemma best_fit_loop_seg:
  "seg m 0 bs lo hi \<Longrightarrow> 0 \<notin> set bs \<Longrightarrow>
     best_fit_loop m sz l best bsz (hd (bs @ [0])) = Some (best_fit m sz l best bsz bs)"
proof (induction bs arbitrary: lo l best bsz)
  case Nil
  show ?case by (subst best_fit_loop.simps) simp
next
  case (Cons b bs)
  from Cons.prems have b: "unat b = lo" and nx: "blk_next m b = hd (bs @ [0])"
    and rest: "seg m 0 bs (lo + 24 + unat (blk_size m b)) hi" by auto
  from Cons.prems(2) have b0: "b \<noteq> 0" and nz: "0 \<notin> set bs" by auto
  note IH = Cons.IH[OF rest nz]
  show ?case
    using b0 nx IH by (subst best_fit_loop.simps) simp
qed

definition fits :: "memory \<Rightarrow> addr \<Rightarrow> addr \<Rightarrow> bool" where
  "fits m sz b = (blk_free m b \<noteq> 0 \<and> sz \<le> blk_size m b)"

text \<open>
  The scan from a state in which no block is selected yet (\<open>best = 0\<close>), or in which the
  selected block is behind the scan and \<open>l\<close> is that block.
\<close>

lemma best_fit_spec:
  assumes "distinct bs" and "0 \<notin> set bs"
    and "best = 0 \<or> (best \<notin> set bs \<and> l = best)"
  shows "case best_fit m sz l best bsz bs of (l', best') \<Rightarrow>
           (best' = best \<and> (\<forall>c\<in>set bs. fits m sz c \<longrightarrow> bsz \<le> blk_size m c)
              \<and> l' = (if best = 0 then last (l # bs) else best))
           \<or> (best' \<in> set bs \<and> fits m sz best' \<and> blk_size m best' < bsz \<and> l' = best'
              \<and> (\<forall>c\<in>set bs. fits m sz c \<longrightarrow> blk_size m best' \<le> blk_size m c)
              \<and> (\<forall>c\<in>set (takeWhile (\<lambda>c. c \<noteq> best') bs).
                    fits m sz c \<longrightarrow> blk_size m best' < blk_size m c))"
  using assms
proof (induction bs arbitrary: l best bsz)
  case Nil
  then show ?case by auto
next
  case (Cons b bs)
  from Cons.prems have d: "distinct bs" and nz: "0 \<notin> set bs" and bn: "b \<notin> set bs"
    and b0: "b \<noteq> 0" by auto
  show ?case
  proof (cases "blk_free m b \<noteq> 0 \<and> sz \<le> blk_size m b \<and> blk_size m b < bsz")
    case True
    have pre: "b = 0 \<or> (b \<notin> set bs \<and> b = b)" using bn by simp
    obtain l' best' where r: "best_fit m sz b b (blk_size m b) bs = (l', best')"
      by (cases "best_fit m sz b b (blk_size m b) bs") auto
    from Cons.IH[OF d nz pre, of "blk_size m b"] r
    have IH: "(best' = b \<and> (\<forall>c\<in>set bs. fits m sz c \<longrightarrow> blk_size m b \<le> blk_size m c)
              \<and> l' = (if b = 0 then last (b # bs) else b))
           \<or> (best' \<in> set bs \<and> fits m sz best' \<and> blk_size m best' < blk_size m b \<and> l' = best'
              \<and> (\<forall>c\<in>set bs. fits m sz c \<longrightarrow> blk_size m best' \<le> blk_size m c)
              \<and> (\<forall>c\<in>set (takeWhile (\<lambda>c. c \<noteq> best') bs).
                    fits m sz c \<longrightarrow> blk_size m best' < blk_size m c))"
      by simp
    have res: "best_fit m sz l best bsz (b # bs) = (l', best')" using True r by simp
    from IH show ?thesis
    proof
      assume a: "best' = b \<and> (\<forall>c\<in>set bs. fits m sz c \<longrightarrow> blk_size m b \<le> blk_size m c)
              \<and> l' = (if b = 0 then last (b # bs) else b)"
      then have "best' \<in> set (b # bs) \<and> fits m sz best' \<and> blk_size m best' < bsz \<and> l' = best'
              \<and> (\<forall>c\<in>set (b # bs). fits m sz c \<longrightarrow> blk_size m best' \<le> blk_size m c)
              \<and> (\<forall>c\<in>set (takeWhile (\<lambda>c. c \<noteq> best') (b # bs)).
                    fits m sz c \<longrightarrow> blk_size m best' < blk_size m c)"
        using True b0 by (auto simp: fits_def)
      then show ?thesis unfolding res by simp
    next
      assume a: "best' \<in> set bs \<and> fits m sz best' \<and> blk_size m best' < blk_size m b \<and> l' = best'
              \<and> (\<forall>c\<in>set bs. fits m sz c \<longrightarrow> blk_size m best' \<le> blk_size m c)
              \<and> (\<forall>c\<in>set (takeWhile (\<lambda>c. c \<noteq> best') bs).
                    fits m sz c \<longrightarrow> blk_size m best' < blk_size m c)"
      then have ne: "b \<noteq> best'" using bn by auto
      from a True ne have "best' \<in> set (b # bs) \<and> fits m sz best' \<and> blk_size m best' < bsz \<and> l' = best'
              \<and> (\<forall>c\<in>set (b # bs). fits m sz c \<longrightarrow> blk_size m best' \<le> blk_size m c)
              \<and> (\<forall>c\<in>set (takeWhile (\<lambda>c. c \<noteq> best') (b # bs)).
                    fits m sz c \<longrightarrow> blk_size m best' < blk_size m c)"
        by auto
      then show ?thesis unfolding res by simp
    qed
  next
    case False
    define l1 where "l1 = (if best = 0 \<or> b = best then b else l)"
    from Cons.prems(3) have bb: "best = 0 \<or> (b \<noteq> best \<and> best \<notin> set bs \<and> l = best)" by auto
    then have pre: "best = 0 \<or> (best \<notin> set bs \<and> l1 = best)" by (auto simp: l1_def)
    obtain l' best' where r: "best_fit m sz l1 best bsz bs = (l', best')"
      by (cases "best_fit m sz l1 best bsz bs") auto
    from Cons.IH[OF d nz pre, of bsz] r
    have IH: "(best' = best \<and> (\<forall>c\<in>set bs. fits m sz c \<longrightarrow> bsz \<le> blk_size m c)
              \<and> l' = (if best = 0 then last (l1 # bs) else best))
           \<or> (best' \<in> set bs \<and> fits m sz best' \<and> blk_size m best' < bsz \<and> l' = best'
              \<and> (\<forall>c\<in>set bs. fits m sz c \<longrightarrow> blk_size m best' \<le> blk_size m c)
              \<and> (\<forall>c\<in>set (takeWhile (\<lambda>c. c \<noteq> best') bs).
                    fits m sz c \<longrightarrow> blk_size m best' < blk_size m c))"
      by simp
    have "best_fit m sz l best bsz (b # bs) = best_fit m sz l1 best bsz bs"
      unfolding l1_def best_fit.simps by (rule if_not_P) (rule False)
    with r have res: "best_fit m sz l best bsz (b # bs) = (l', best')" by simp
    have nb: "fits m sz b \<longrightarrow> bsz \<le> blk_size m b" using False by (auto simp: fits_def)
    from IH show ?thesis
    proof
      assume a: "best' = best \<and> (\<forall>c\<in>set bs. fits m sz c \<longrightarrow> bsz \<le> blk_size m c)
              \<and> l' = (if best = 0 then last (l1 # bs) else best)"
      have "last (l1 # bs) = last (l # b # bs)" if "best = 0" using that by (simp add: l1_def)
      with a nb have "best' = best \<and> (\<forall>c\<in>set (b # bs). fits m sz c \<longrightarrow> bsz \<le> blk_size m c)
              \<and> l' = (if best = 0 then last (l # b # bs) else best)" by auto
      then show ?thesis unfolding res by simp
    next
      assume a: "best' \<in> set bs \<and> fits m sz best' \<and> blk_size m best' < bsz \<and> l' = best'
              \<and> (\<forall>c\<in>set bs. fits m sz c \<longrightarrow> blk_size m best' \<le> blk_size m c)
              \<and> (\<forall>c\<in>set (takeWhile (\<lambda>c. c \<noteq> best') bs).
                    fits m sz c \<longrightarrow> blk_size m best' < blk_size m c)"
      then have ne: "b \<noteq> best'" using bn by auto
      from a nb ne have "best' \<in> set (b # bs) \<and> fits m sz best' \<and> blk_size m best' < bsz \<and> l' = best'
              \<and> (\<forall>c\<in>set (b # bs). fits m sz c \<longrightarrow> blk_size m best' \<le> blk_size m c)
              \<and> (\<forall>c\<in>set (takeWhile (\<lambda>c. c \<noteq> best') (b # bs)).
                    fits m sz c \<longrightarrow> blk_size m best' < blk_size m c)"
        by auto
      then show ?thesis unfolding res by simp
    qed
  qed
qed

lemma seg_distinct: "seg m t bs lo hi \<Longrightarrow> distinct bs"
proof (induction bs arbitrary: lo)
  case Nil
  then show ?case by simp
next
  case (Cons b bs)
  from Cons.prems have b: "unat b = lo"
    and rest: "seg m t bs (lo + 24 + unat (blk_size m b)) hi" by auto
  have "b \<notin> set bs" using seg_bounds[OF rest, of b] b by auto
  with Cons.IH[OF rest] show ?case by simp
qed

lemma unat_SIZE_MAX: "unat SIZE_MAX = 2 ^ 64 - 1"
  by (simp add: SIZE_MAX_def unsigned_minus_1_eq_mask mask_eq_exp_minus_1)

text \<open>
  C5, as amended. On a well-formed heap with a non-empty chain
  \<^verbatim>\<open>find_free_block_best_fit\<close> returns. When no free block satisfies the request it
  returns \<^verbatim>\<open>NULL\<close> and sets \<^verbatim>\<open>*last\<close> to the final node of the chain. Otherwise it
  returns a free block that satisfies the request, no block that does is smaller, every
  such block before it in the chain is strictly larger, and \<^verbatim>\<open>*last\<close> is the returned
  block itself.
\<close>

theorem best_fit_correct:
  assumes "heap_inv s" and "head s \<noteq> 0"
  shows "\<exists>l b. find_free_block_best_fit s sz = Some (l, b)
           \<and> (if \<forall>c\<in>set (blocks s). \<not> fits (mem s) sz c
               then b = 0 \<and> l = last (blocks s)
               else b \<in> set (blocks s) \<and> fits (mem s) sz b \<and> l = b
                  \<and> (\<forall>c\<in>set (blocks s). fits (mem s) sz c
                        \<longrightarrow> blk_size (mem s) b \<le> blk_size (mem s) c)
                  \<and> (\<forall>c\<in>set (takeWhile (\<lambda>c. c \<noteq> b) (blocks s)). fits (mem s) sz c
                        \<longrightarrow> blk_size (mem s) b < blk_size (mem s) c))"
proof -
  from heap_inv_seg[OF assms(1)] obtain lo where sg: "seg (mem s) 0 (blocks s) lo (unat (brk s))"
    and nz: "0 \<notin> set (blocks s)" and hd: "hd (blocks s @ [0]) = head s" by blast
  from assms(2) hd have ne: "blocks s \<noteq> []" by auto
  obtain l b where r: "best_fit (mem s) sz 0 0 SIZE_MAX (blocks s) = (l, b)"
    by (cases "best_fit (mem s) sz 0 0 SIZE_MAX (blocks s)") auto
  have res: "find_free_block_best_fit s sz = Some (l, b)"
    using best_fit_loop_seg[OF sg nz, of sz 0 0 SIZE_MAX] hd r
    by (simp add: find_free_block_best_fit_def)
  have small: "blk_size (mem s) c < SIZE_MAX" if "c \<in> set (blocks s)" for c
  proof -
    have "unat (brk s) < 2 ^ 64" using unsigned_less[of "brk s", where 'a=nat] by simp
    with seg_bounds[OF sg that] have "unat (blk_size (mem s) c) < 2 ^ 64 - 1" by simp
    then show ?thesis by (simp add: word_less_nat_alt unat_SIZE_MAX)
  qed
  from best_fit_spec[OF seg_distinct[OF sg] nz, of 0 0 "mem s" sz SIZE_MAX] r
  have "(b = 0 \<and> (\<forall>c\<in>set (blocks s). fits (mem s) sz c \<longrightarrow> SIZE_MAX \<le> blk_size (mem s) c)
              \<and> l = last (0 # blocks s))
           \<or> (b \<in> set (blocks s) \<and> fits (mem s) sz b \<and> blk_size (mem s) b < SIZE_MAX \<and> l = b
              \<and> (\<forall>c\<in>set (blocks s). fits (mem s) sz c \<longrightarrow> blk_size (mem s) b \<le> blk_size (mem s) c)
              \<and> (\<forall>c\<in>set (takeWhile (\<lambda>c. c \<noteq> b) (blocks s)).
                    fits (mem s) sz c \<longrightarrow> blk_size (mem s) b < blk_size (mem s) c))"
    by simp
  then show ?thesis
  proof
    assume a: "b = 0 \<and> (\<forall>c\<in>set (blocks s). fits (mem s) sz c \<longrightarrow> SIZE_MAX \<le> blk_size (mem s) c)
              \<and> l = last (0 # blocks s)"
    with small have "\<forall>c\<in>set (blocks s). \<not> fits (mem s) sz c" by (auto simp: not_le[symmetric])
    with a ne res show ?thesis by auto
  next
    assume a: "b \<in> set (blocks s) \<and> fits (mem s) sz b \<and> blk_size (mem s) b < SIZE_MAX \<and> l = b
              \<and> (\<forall>c\<in>set (blocks s). fits (mem s) sz c \<longrightarrow> blk_size (mem s) b \<le> blk_size (mem s) c)
              \<and> (\<forall>c\<in>set (takeWhile (\<lambda>c. c \<noteq> b) (blocks s)).
                    fits (mem s) sz c \<longrightarrow> blk_size (mem s) b < blk_size (mem s) c)"
    then have "\<not> (\<forall>c\<in>set (blocks s). \<not> fits (mem s) sz c)" by blast
    with a res show ?thesis by auto
  qed
qed

lemma example_best_fit: "find_free_block_best_fit example_heap 8 = Some (4264, 4264)"
proof -
  from heap_inv_seg[of example_heap] example_heap_inv
  obtain lo where sg: "seg (mem example_heap) 0 [4096, 4160, 4264, 4312] lo (unat (brk example_heap))"
    by auto
  have "best_fit_loop (mem example_heap) 8 0 0 SIZE_MAX (hd ([4096, 4160, 4264, 4312] @ [0]))
          = Some (best_fit (mem example_heap) 8 0 0 SIZE_MAX [4096, 4160, 4264, 4312])"
    by (rule best_fit_loop_seg[OF sg]) simp
  moreover have "(40 :: addr) < SIZE_MAX" "(24 :: addr) < 40" "(8 :: addr) \<le> 40" "(8 :: addr) \<le> 24"
    by (simp_all add: word_less_nat_alt word_le_nat_alt unat_SIZE_MAX)
  ultimately show ?thesis
    by (simp add: find_free_block_best_fit_def example_heap_fields)
       (simp add: example_heap_def)
qed

theorem best_fit_correct_witness:
  "heap_inv example_heap \<and> head example_heap \<noteq> 0
   \<and> find_free_block_best_fit example_heap 8 = Some (4264, 4264)
   \<and> 4264 \<in> set (blocks example_heap) \<and> fits (mem example_heap) 8 4264"
proof -
  have h: "head example_heap \<noteq> 0" by (simp add: example_heap_def)
  have f: "fits (mem example_heap) 8 4264"
    by (simp add: fits_def example_heap_fields word_le_nat_alt)
  with best_fit_correct[of example_heap 8] example_heap_inv h example_best_fit
  show ?thesis by auto
qed

text \<open>
  The claim as stated fails on the example heap (free 40, used 80, free 24, used 16) for
  a request of 8 bytes: the scan selects the block at 4264 and leaves \<^verbatim>\<open>*last\<close> there,
  while the final node of the chain is the block at 4312.
\<close>

theorem best_fit_last_counterexample:
  "heap_inv example_heap \<and> blocks example_heap = [4096, 4160, 4264, 4312]
   \<and> find_free_block_best_fit example_heap 8 = Some (4264, 4264)
   \<and> (4264 :: addr) \<noteq> last (blocks example_heap)"
  using example_heap_inv example_best_fit by simp

section \<open>Data preservation on growth\<close>

text \<open>
  C9, as amended. In a well-formed heap, for a live pointer \<open>p\<close> whose block is smaller
  than the requested size, and a request of at most \<open>2^63 - 40\<close> bytes, \<^verbatim>\<open>my_realloc\<close>
  returns; when its result \<open>q\<close> is not \<^verbatim>\<open>NULL\<close>, \<open>q\<close> is a live pointer to a block of at
  least the requested size, the first \<open>min(old size, size)\<close> bytes at \<open>q\<close> are the bytes
  that were at \<open>p\<close> when the call was made, \<open>p\<close> is no longer live, and the coalescing
  pass has left no two adjacent free blocks.
\<close>

theorem my_realloc_preserves_data:
  assumes "heap_inv s" and "live s p" and "request_ok sz"
    and "\<not> sz \<le> blk_size (mem s) (get_block_ptr p)"
  shows "\<exists>q s'. my_realloc s p sz = Some (q, s')
           \<and> (q \<noteq> 0 \<longrightarrow>
                 live s' q \<and> unat sz \<le> unat (blk_size (mem s') (get_block_ptr q))
                 \<and> (\<forall>i<min (unat (blk_size (mem s) (get_block_ptr p))) (unat sz).
                       mem s' (unat q + i) = mem s (unat p + i))
                 \<and> \<not> live s' p \<and> no_adjacent_free s')"
proof -
  from my_realloc_grow[OF assms]
  obtain q s' where r: "my_realloc s p sz = Some (q, s')"
    and c: "q \<noteq> 0 \<longrightarrow>
                 (\<forall>i<unat (blk_size (mem s) (get_block_ptr p)). mem s' (unat q + i) = mem s (unat p + i))
                 \<and> \<not> live s' p \<and> live s' q \<and> no_adjacent_free s'
                 \<and> unat sz \<le> unat (blk_size (mem s') (get_block_ptr q))"
    by blast
  show ?thesis
    apply (intro exI[of _ q] exI[of _ s'])
    using r c by simp
qed

lemma ALIGN_200: "ALIGN 200 = 200"
  by (simp add: ALIGN_def ALIGNMENT_def)

lemma example_malloc_200: "\<exists>s1. my_malloc example_heap 200 = Some (4376, s1)"
proof -
  from heap_inv_seg[of example_heap] example_heap_inv
  obtain lo where sg: "seg (mem example_heap) 0 (blocks example_heap) lo (unat (brk example_heap))"
    and nz: "0 \<notin> set (blocks example_heap)" by auto
  have nofit: "snd (first_fit (mem example_heap) (ALIGN 200) (head example_heap) (blocks example_heap)) = 0"
    by (simp add: example_heap_inv example_heap_fields ALIGN_200 word_le_nat_alt)
  have h: "brk example_heap = 4352" "head example_heap \<noteq> 0" "brk_max example_heap = 8192"
    by (simp_all add: example_heap_def)
  have "unat (200 :: addr) + 24 < 2 ^ 63"
    "unat (brk example_heap) + 24 + unat (200 :: addr) \<le> unat (brk_max example_heap)"
    by (simp_all add: h)
  from request_space_seg[OF sg nz this]
  obtain s1 where "request_space example_heap (last (0 # blocks example_heap)) 200 = (4352, s1)"
    by (auto simp: h)
  with my_malloc_extend[OF _ _ nofit] example_heap_inv h
  show ?thesis by (simp add: ALIGN_200 BLOCK_SIZE_def)
qed

theorem my_realloc_preserves_data_witness:
  "heap_inv example_heap \<and> live example_heap 4184 \<and> request_ok 200
   \<and> \<not> 200 \<le> blk_size (mem example_heap) (get_block_ptr 4184)
   \<and> (\<exists>s'. my_realloc example_heap 4184 200 = Some (4376, s')
           \<and> live s' 4376 \<and> unat (200 :: addr) \<le> unat (blk_size (mem s') (get_block_ptr 4376))
           \<and> (\<forall>i<min (unat (blk_size (mem example_heap) (get_block_ptr 4184))) (unat (200 :: addr)).
                 mem s' (unat (4376 :: addr) + i) = mem example_heap (unat (4184 :: addr) + i))
           \<and> \<not> live s' 4184 \<and> no_adjacent_free s')"
proof -
  have a: "request_ok 200" by (simp add: request_ok_def)
  have b: "\<not> 200 \<le> blk_size (mem example_heap) (get_block_ptr 4184)"
    by (simp add: get_block_ptr_def BLOCK_SIZE_def example_heap_fields)
  from my_realloc_preserves_data[OF _ example_heap_live a b] example_heap_inv
  obtain q s' where r: "my_realloc example_heap 4184 200 = Some (q, s')"
    and c: "q \<noteq> 0 \<longrightarrow>
                 live s' q \<and> unat (200 :: addr) \<le> unat (blk_size (mem s') (get_block_ptr q))
                 \<and> (\<forall>i<min (unat (blk_size (mem example_heap) (get_block_ptr 4184))) (unat (200 :: addr)).
                       mem s' (unat q + i) = mem example_heap (unat (4184 :: addr) + i))
                 \<and> \<not> live s' 4184 \<and> no_adjacent_free s'"
    by blast
  from example_malloc_200 obtain s1 where m: "my_malloc example_heap 200 = Some (4376, s1)"
    by blast
  from r b m have "q = 4376"
    by (auto simp: my_realloc_def Let_def split: option.splits)
  with r c a b example_heap_inv example_heap_live show ?thesis by auto
qed

text \<open>
  The claim as stated fails where aligning the size wraps around. The run
  \<^verbatim>\<open>a = my_malloc(SIZE_MAX); p = my_malloc(16); my_free(a)\<close> from the empty heap leaves a
  free block of size 0 at 4096 (\<open>ALIGN(2^64 - 1) = 0\<close>) before the used block of \<open>p\<close>
  at 4120. Then \<^verbatim>\<open>my_realloc(p, SIZE_MAX)\<close> takes the block of size 0 for the new
  allocation, copies the 16 payload bytes of \<open>p\<close> over the header of \<open>p\<close>'s own block, and
  releasing \<open>p\<close> writes the free flag into the copy: the byte at offset 8 of the result
  is 1, the byte at offset 8 of the old payload was 0.
\<close>

definition zero_heap1 :: heap_state where
  "zero_heap1 =
     \<lparr>mem = set_next (set_free (set_size (\<lambda>_. 0) 4096 0) 4096 0) 4096 0,
      head = 4096, brk = 4120, brk_max = 8192, brk_min = 4096\<rparr>"

definition zero_heap2 :: heap_state where
  "zero_heap2 =
     \<lparr>mem = set_next (set_free (set_size (set_next (mem zero_heap1) 4096 4120) 4120 16) 4120 0)
              4120 0,
      head = 4096, brk = 4160, brk_max = 8192, brk_min = 4096\<rparr>"

definition zero_heap3 :: heap_state where
  "zero_heap3 = zero_heap2\<lparr>mem := set_free (mem zero_heap2) 4096 1\<rparr>"

lemma ALIGN_minus_1: "ALIGN (- 1) = 0"
  by (simp add: ALIGN_def ALIGNMENT_def)

lemma ALIGN_16: "ALIGN 16 = 16"
  by (simp add: ALIGN_def ALIGNMENT_def)

lemma zero_malloc1: "my_malloc empty_heap (- 1) = Some (4120, zero_heap1)"
  by (simp add: my_malloc_def ALIGN_minus_1 request_space_def sbrk_def Let_def BLOCK_SIZE_def
      empty_heap_def zero_heap1_def)

lemma zero_heap1_fields:
  "blk_free (mem zero_heap1) 4096 = 0" "blk_next (mem zero_heap1) 4096 = 0"
  "blk_size (mem zero_heap1) 4096 = 0"
  by (simp_all add: zero_heap1_def hdr_same)

lemma zero_malloc2: "my_malloc zero_heap1 16 = Some (4144, zero_heap2)"
proof -
  have h: "head zero_heap1 = 4096" "brk zero_heap1 = 4120" "brk_max zero_heap1 = 8192"
    "brk_min zero_heap1 = 4096"
    by (simp_all add: zero_heap1_def)
  have "first_fit_loop (mem zero_heap1) 16 4096 0 = Some (4096, 0)"
    by (subst first_fit_loop.simps) simp
  then have "first_fit_loop (mem zero_heap1) 16 4096 4096 = Some (4096, 0)"
    by (subst first_fit_loop.simps) (simp add: zero_heap1_fields)
  then have ff: "find_free_block_first_fit zero_heap1 4096 16 = Some (4096, 0)"
    by (simp add: find_free_block_first_fit_def h)
  have "request_space zero_heap1 4096 16 = (4120, zero_heap2)"
    by (simp add: request_space_def sbrk_def Let_def BLOCK_SIZE_def h zero_heap2_def)
  then show ?thesis
    by (simp add: my_malloc_def ALIGN_16 ff h Let_def BLOCK_SIZE_def)
qed

lemma zero_heap2_fields:
  "blk_size (mem zero_heap2) 4096 = 0" "blk_free (mem zero_heap2) 4096 = 0"
  "blk_next (mem zero_heap2) 4096 = 4120"
  "blk_size (mem zero_heap2) 4120 = 16" "blk_free (mem zero_heap2) 4120 = 0"
  "blk_next (mem zero_heap2) 4120 = 0"
  by (simp_all add: zero_heap2_def hdr_same hdr_other zero_heap1_fields)

lemma zero_heap3_fields:
  "blk_size (mem zero_heap3) 4096 = 0" "blk_free (mem zero_heap3) 4096 = 1"
  "blk_next (mem zero_heap3) 4096 = 4120"
  "blk_size (mem zero_heap3) 4120 = 16" "blk_free (mem zero_heap3) 4120 = 0"
  "blk_next (mem zero_heap3) 4120 = 0"
  by (simp_all add: zero_heap3_def hdr_same hdr_other zero_heap2_fields)

lemma zero_free: "my_free zero_heap2 4120 = Some zero_heap3"
proof -
  have "coalesce_loop (mem zero_heap3) 4120 = Some (mem zero_heap3)"
    by (subst coalesce_loop.simps) (simp add: zero_heap3_fields)
  then have "coalesce_loop (mem zero_heap3) 4096 = Some (mem zero_heap3)"
    by (subst coalesce_loop.simps) (simp add: zero_heap3_fields)
  then show ?thesis
    by (simp add: my_free_def get_block_ptr_def BLOCK_SIZE_def coalesce_def Let_def
        zero_heap3_def zero_heap2_def)
qed

lemma zero_heap3_blocks: "heap_inv zero_heap3 \<and> blocks zero_heap3 = [4096, 4120]"
proof (rule heap_invI)
  show "unat (brk zero_heap3) \<le> unat (brk_max zero_heap3)"
    by (simp add: zero_heap3_def zero_heap2_def)
  show "seg (mem zero_heap3) 0 [4096, 4120] 4096 (unat (brk zero_heap3))"
    by (simp add: zero_heap3_fields) (simp add: zero_heap3_def zero_heap2_def)
  show "0 \<notin> set [4096, 4120 :: addr]" by simp
  show "hd ([4096, 4120] @ [0]) = head zero_heap3" by (simp add: zero_heap3_def zero_heap2_def)
qed

lemma zero_heap3_payload: "mem zero_heap3 4152 = 0"
  by (simp add: zero_heap3_def zero_heap2_def zero_heap1_def set_outside)

lemma store_le_first: "store_le m a (Suc n) v a = of_nat v"
  by (simp add: store_le_outside)

lemma set_free_byte: "set_free m b v (unat b + 8) = of_nat (unat v)"
proof -
  have "store_le m (unat b + 8) (Suc 3) (unat v) (unat b + 8) = of_nat (unat v)"
    by (rule store_le_first)
  moreover have "(4 :: nat) = Suc 3" by simp
  ultimately show ?thesis unfolding set_free_def wr32_def by (simp only:)
qed

definition zero_heap4 :: heap_state where
  "zero_heap4 =
     zero_heap3\<lparr>mem := set_free (memcpy (set_free (mem zero_heap3) 4096 0) 4120 4144 16) 4120 1\<rparr>"

lemma zero_realloc: "my_realloc zero_heap3 4144 (- 1) = Some (4120, zero_heap4)"
proof -
  define m1 where "m1 = set_free (mem zero_heap3) 4096 0"
  define m2 where "m2 = memcpy m1 4120 4144 16"
  define m3 where "m3 = set_free m2 4120 1"
  have h: "head zero_heap3 = 4096" by (simp add: zero_heap3_def zero_heap2_def)
  have "first_fit (mem zero_heap3) (ALIGN (- 1)) (head zero_heap3) (blocks zero_heap3) = (4096, 4096)"
    by (simp add: zero_heap3_blocks zero_heap3_fields ALIGN_minus_1 h)
  then have "snd (first_fit (mem zero_heap3) (ALIGN (- 1)) (head zero_heap3) (blocks zero_heap3)) = 4096"
    by simp
  from my_malloc_reuse[OF _ _ this] zero_heap3_blocks
  have "my_malloc zero_heap3 (- 1)
          = Some (4096 + BLOCK_SIZE,
                  zero_heap3\<lparr>mem := set_free (split_block (mem zero_heap3) 4096 (ALIGN (- 1))) 4096 0\<rparr>)"
    by simp
  moreover have "split_block (mem zero_heap3) 4096 (ALIGN (- 1)) = mem zero_heap3"
    by (rule split_block_whole) (simp_all add: ALIGN_minus_1 zero_heap3_fields)
  ultimately have mal: "my_malloc zero_heap3 (- 1) = Some (4120, zero_heap3\<lparr>mem := m1\<rparr>)"
    by (simp add: BLOCK_SIZE_def m1_def)
  have sz: "blk_size m1 4120 = 16" by (simp add: m1_def hdr_other zero_heap3_fields)
  have same96: "m2 x = m1 x" if "unat (4096 :: addr) \<le> x" "x < unat (4096 :: addr) + 24" for x
    unfolding m2_def using that by (intro memcpy_outside) simp
  have c96: "blk_next m2 4096 = blk_next m1 4096 \<and> blk_free m2 4096 = blk_free m1 4096"
    using hdr_cong[of 4096 m2 m1, OF same96] by simp
  have same20: "m2 x = m1 x" if "unat (4120 :: addr) + 16 \<le> x" for x
    unfolding m2_def using that by (intro memcpy_outside) simp
  have "blk_next m2 4120 = blk_next m1 4120"
    unfolding blk_next_def by (rule rd64_cong) (rule same20)
  then have n20: "blk_next m3 4120 = 0"
    by (simp add: m3_def m1_def hdr_same hdr_other zero_heap3_fields)
  have n96: "blk_next m3 4096 = 4120" "blk_free m3 4096 = 0"
    using c96 by (simp_all add: m3_def m1_def hdr_same hdr_other zero_heap3_fields)
  have "coalesce_loop m3 4120 = Some m3"
    by (subst coalesce_loop.simps) (simp add: n20)
  then have "coalesce_loop m3 4096 = Some m3"
    by (subst coalesce_loop.simps) (simp add: n96)
  then have fr: "my_free (zero_heap3\<lparr>mem := m2\<rparr>) 4144 = Some (zero_heap3\<lparr>mem := m3\<rparr>)"
    by (simp add: my_free_def get_block_ptr_def BLOCK_SIZE_def coalesce_def Let_def m3_def h)
  have "\<not> (- 1 :: addr) \<le> blk_size (mem zero_heap3) 4120"
    by (simp add: zero_heap3_fields word_le_nat_alt unat_SIZE_MAX[unfolded SIZE_MAX_def])
  then show ?thesis
    using mal sz fr
    by (simp add: my_realloc_def get_block_ptr_def BLOCK_SIZE_def Let_def zero_heap4_def
        m3_def m2_def m1_def)
qed

theorem my_realloc_data_counterexample:
  "my_malloc empty_heap (- 1) = Some (4120, zero_heap1)
   \<and> my_malloc zero_heap1 16 = Some (4144, zero_heap2)
   \<and> my_free zero_heap2 4120 = Some zero_heap3
   \<and> heap_inv zero_heap3 \<and> live zero_heap3 4144
   \<and> \<not> (- 1) \<le> blk_size (mem zero_heap3) (get_block_ptr 4144)
   \<and> my_realloc zero_heap3 4144 (- 1) = Some (4120, zero_heap4)
   \<and> 8 < min (unat (blk_size (mem zero_heap3) (get_block_ptr 4144))) (unat (- 1 :: addr))
   \<and> mem zero_heap4 (unat (4120 :: addr) + 8) \<noteq> mem zero_heap3 (unat (4144 :: addr) + 8)"
proof -
  have g: "get_block_ptr 4144 = 4120" by (simp add: get_block_ptr_def BLOCK_SIZE_def)
  have "live zero_heap3 4144"
    by (simp add: live_def g zero_heap3_blocks zero_heap3_fields)
  moreover have "\<not> (- 1 :: addr) \<le> blk_size (mem zero_heap3) (get_block_ptr 4144)"
    by (simp add: g zero_heap3_fields word_le_nat_alt unat_SIZE_MAX[unfolded SIZE_MAX_def])
  moreover have "8 < min (unat (blk_size (mem zero_heap3) (get_block_ptr 4144))) (unat (- 1 :: addr))"
    by (simp add: g zero_heap3_fields unat_SIZE_MAX[unfolded SIZE_MAX_def])
  moreover have "mem zero_heap4 (unat (4120 :: addr) + 8) = 1"
    using set_free_byte[of _ 4120 1] by (simp add: zero_heap4_def)
  ultimately show ?thesis
    using zero_malloc1 zero_malloc2 zero_free zero_realloc zero_heap3_blocks zero_heap3_payload
    by simp
qed

section \<open>States reached within the size bound\<close>

text \<open>
  The states a program reaches from an empty heap when every size it requests is at
  most \<open>2^63 - 40\<close>: by calls of the public API with such a size and a pointer that is
  \<^verbatim>\<open>NULL\<close> or live (\<open>call_ok\<close>), and by the program's own stores into the payload of a
  live block. The bound on the sizes is not an obligation the program or its spec
  states; it is the condition under which the heap stays well-formed. Every state
  reached within it is a well-formed heap; a run that requests more leaves the
  well-formed heaps, as the runs of the next section do.
\<close>

inductive reachable_bounded :: "heap_state \<Rightarrow> bool" where
  empty: "head s = 0 \<Longrightarrow> unat (brk s) \<le> unat (brk_max s) \<Longrightarrow> reachable_bounded s"
| call: "reachable_bounded s \<Longrightarrow> call_ok s c \<Longrightarrow> api s c = Some (r, s') \<Longrightarrow> reachable_bounded s'"
| store: "reachable_bounded s \<Longrightarrow> live s p \<Longrightarrow> i < unat (blk_size (mem s) (get_block_ptr p)) \<Longrightarrow>
            reachable_bounded (s\<lparr>mem := (mem s)(unat p + i := v)\<rparr>)"

lemma store_heap_inv:
  assumes inv: "heap_inv s" and lv: "live s p"
    and i: "i < unat (blk_size (mem s) (get_block_ptr p))"
  shows "heap_inv (s\<lparr>mem := (mem s)(unat p + i := v)\<rparr>)"
proof -
  define P where "P = get_block_ptr p"
  note lp = live_ptr[OF inv lv, folded P_def]
  from heap_inv_seg[OF inv] obtain lo where sg: "seg (mem s) 0 (blocks s) lo (unat (brk s))"
    and nz: "0 \<notin> set (blocks s)" and hd: "hd (blocks s @ [0]) = head s" by blast
  define m' where "m' = (mem s)(unat p + i := v)"
  have f: "blk_size m' c = blk_size (mem s) c \<and> blk_next m' c = blk_next (mem s) c"
    if c: "c \<in> set (blocks s)" for c
  proof -
    have "m' x = mem s x" if x: "unat c \<le> x" "x < unat c + 24" for x
    proof -
      have "x \<noteq> unat p + i"
      proof (cases "c = P")
        case True
        with x lp(4) show ?thesis by simp
      next
        case False
        from seg_disjoint[OF sg lp(2) c] False x lp(4) i show ?thesis
          by (auto simp: P_def)
      qed
      then show ?thesis by (simp add: m'_def)
    qed
    from hdr_cong[of c m' "mem s", OF this] show ?thesis by simp
  qed
  have "heap_inv (s\<lparr>mem := m'\<rparr>) \<and> blocks (s\<lparr>mem := m'\<rparr>) = blocks s"
  proof (rule heap_invI)
    show "unat (brk (s\<lparr>mem := m'\<rparr>)) \<le> unat (brk_max (s\<lparr>mem := m'\<rparr>))"
      using inv by (simp add: heap_inv_def)
    show "seg (mem (s\<lparr>mem := m'\<rparr>)) 0 (blocks s) lo (unat (brk (s\<lparr>mem := m'\<rparr>)))"
      using seg_fields[OF sg, of m'] f by simp
    show "0 \<notin> set (blocks s)" by (rule nz)
    show "hd (blocks s @ [0]) = head (s\<lparr>mem := m'\<rparr>)" using hd by simp
  qed
  then show ?thesis by (simp add: m'_def)
qed

lemma reachable_bounded_heap_inv: "reachable_bounded s \<Longrightarrow> heap_inv s"
proof (induction rule: reachable_bounded.induct)
  case (empty s)
  then show ?case by (simp add: heap_inv_def)
next
  case (call s c r s')
  from api_heap_inv[OF call.IH call.hyps(2)] call.hyps(3) show ?case by auto
next
  case (store s p i v)
  from store_heap_inv[OF store.IH store.hyps(2,3)] show ?case .
qed

section \<open>Runs through a wrapped request\<close>




















































text \<open>
  C6, as stated, fails on a run of the API. After \<^verbatim>\<open>a = my_malloc(2^64 - 8)\<close> and
  \<^verbatim>\<open>my_free(a)\<close> the block at 4096 is free with capacity \<open>2^64 - 8\<close>, and
  \<^verbatim>\<open>my_malloc(2^64 - 8)\<close> finds it by first fit and passes it to \<^verbatim>\<open>split_block\<close> with the
  aligned request \<open>2^64 - 8\<close>. The capacity minus the request minus the header size is
  \<open>-24\<close>, below the alignment, but the guard \<^verbatim>\<open>size + BLOCK_SIZE + ALIGNMENT\<close> wraps around to
  24 and the block is split: it gets a successor at 4112.
\<close>

definition wrapped_heap1_freed :: heap_state where
  "wrapped_heap1_freed = wrapped_heap1\<lparr>mem := set_free (mem wrapped_heap1) 4096 1\<rparr>"

lemma wrapped_heap1_freed_cells:
  "blk_size (mem wrapped_heap1_freed) 4096 = - 8" "blk_free (mem wrapped_heap1_freed) 4096 = 1"
  "blk_next (mem wrapped_heap1_freed) 4096 = 0"
  by (simp_all add: wrapped_heap1_freed_def wrapped_heap1_def hdr_same)

lemma wrapped_free1: "my_free wrapped_heap1 4120 = Some wrapped_heap1_freed"
proof -
  have "coalesce_loop (mem wrapped_heap1_freed) 4096 = Some (mem wrapped_heap1_freed)"
    by (subst coalesce_loop.simps) (simp add: wrapped_heap1_freed_cells)
  then show ?thesis
    by (simp add: my_free_def get_block_ptr_def BLOCK_SIZE_def coalesce_def Let_def
        wrapped_heap1_freed_def wrapped_heap1_def)
qed

lemma wrapped_first_fit_freed:
  "find_free_block_first_fit wrapped_heap1_freed 4096 (- 8) = Some (4096, 4096)"
proof -
  have "first_fit_loop (mem wrapped_heap1_freed) (- 8) 4096 4096 = Some (4096, 4096)"
    by (subst first_fit_loop.simps) (simp add: wrapped_heap1_freed_cells)
  then show ?thesis
    by (simp add: find_free_block_first_fit_def wrapped_heap1_freed_def wrapped_heap1_def)
qed

lemma wrapped_split_next:
  "blk_next (split_block (mem wrapped_heap1_freed) 4096 (- 8)) 4096 = 4112"
  by (simp add: split_block_def Let_def wrapped_heap1_freed_cells hdr_same ALIGNMENT_def
      BLOCK_SIZE_def)

theorem split_block_counterexample:
  "my_malloc empty_heap (- 8) = Some (4120, wrapped_heap1)
   \<and> my_free wrapped_heap1 4120 = Some wrapped_heap1_freed
   \<and> ALIGN (- 8) = - 8
   \<and> find_free_block_first_fit wrapped_heap1_freed (head wrapped_heap1_freed) (ALIGN (- 8))
       = Some (4096, 4096)
   \<and> my_malloc wrapped_heap1_freed (- 8)
       = Some (4120, wrapped_heap1_freed
                \<lparr>mem := set_free (split_block (mem wrapped_heap1_freed) 4096 (- 8)) 4096 0\<rparr>)
   \<and> blk_free (mem wrapped_heap1_freed) 4096 \<noteq> 0
   \<and> - 8 \<le> blk_size (mem wrapped_heap1_freed) 4096
   \<and> uint (blk_size (mem wrapped_heap1_freed) 4096) - uint (- 8 :: addr) - uint BLOCK_SIZE
       < uint ALIGNMENT
   \<and> blk_next (mem wrapped_heap1_freed) 4096 = 0
   \<and> blk_next (split_block (mem wrapped_heap1_freed) 4096 (- 8)) 4096 = 4112
   \<and> split_block (mem wrapped_heap1_freed) 4096 (- 8) \<noteq> mem wrapped_heap1_freed"
proof -
  have h: "head wrapped_heap1_freed = 4096"
    by (simp add: wrapped_heap1_freed_def wrapped_heap1_def)
  have mal: "my_malloc wrapped_heap1_freed (- 8)
       = Some (4120, wrapped_heap1_freed
                \<lparr>mem := set_free (split_block (mem wrapped_heap1_freed) 4096 (- 8)) 4096 0\<rparr>)"
    using wrapped_first_fit_freed
    by (simp add: my_malloc_def ALIGN_minus_8 h Let_def BLOCK_SIZE_def)
  have "uint (blk_size (mem wrapped_heap1_freed) 4096) - uint (- 8 :: addr) - uint BLOCK_SIZE
       < uint ALIGNMENT"
    by (simp add: wrapped_heap1_freed_cells ALIGNMENT_def BLOCK_SIZE_def)
  moreover have "split_block (mem wrapped_heap1_freed) 4096 (- 8) \<noteq> mem wrapped_heap1_freed"
  proof
    assume "split_block (mem wrapped_heap1_freed) 4096 (- 8) = mem wrapped_heap1_freed"
    with wrapped_split_next have "blk_next (mem wrapped_heap1_freed) 4096 = 4112" by simp
    then show False by (simp add: wrapped_heap1_freed_cells)
  qed
  ultimately show ?thesis
    using wrapped_malloc1 wrapped_free1 wrapped_first_fit_freed mal wrapped_split_next
    by (simp add: ALIGN_minus_8 h wrapped_heap1_freed_cells)
qed

end
